theory Spec2Isabelle
  imports Complex_Main "HOL-Library.Log_Nat"
begin

section \<open>Python values, dictionaries and errors\<close>

text \<open>
  The cards and the persisted document of the language companion are JSON data held in
  Python dictionaries. A value is one of the shapes \<open>json.loads\<close> produces. A Python
  \<open>float\<close> is an IEEE double, held as the real number it denotes; infinities and NaN
  are left out. A dictionary is an association list in insertion order, each key
  occurring once.
\<close>

datatype pyval =
    PNone
  | PBool bool
  | PInt int
  | PFloat real
  | PStr string
  | PList "pyval list"
  | PDict "(string \<times> pyval) list"

type_synonym pydict = "(string \<times> pyval) list"

datatype py_error =
    KeyError | TypeError | ValueError | AttributeError | IndexError | OverflowError

text \<open>\<open>d.get(k, default)\<close>\<close>

definition dict_get :: "pydict \<Rightarrow> string \<Rightarrow> pyval \<Rightarrow> pyval" where
  "dict_get d k dflt = (case map_of d k of None \<Rightarrow> dflt | Some v \<Rightarrow> v)"

text \<open>\<open>d[k] = v\<close>: an existing key keeps its place, a new key goes last.\<close>

fun dict_set :: "string \<Rightarrow> pyval \<Rightarrow> pydict \<Rightarrow> pydict" where
  "dict_set k v [] = [(k, v)]"
| "dict_set k v (p # ps) = (if fst p = k then (k, v) # ps else p # dict_set k v ps)"

text \<open>\<open>d.update(other)\<close>\<close>

definition dict_update :: "pydict \<Rightarrow> pydict \<Rightarrow> pydict" where
  "dict_update d other = fold (\<lambda>kv acc. dict_set (fst kv) (snd kv) acc) other d"

text \<open>\<open>v[k]\<close> for a string \<open>k\<close>: only a dictionary can be subscripted by a string.\<close>

fun py_subscript :: "pyval \<Rightarrow> string \<Rightarrow> py_error + pyval" where
  "py_subscript (PDict d) k = (case map_of d k of None \<Rightarrow> Inl KeyError | Some v \<Rightarrow> Inr v)"
| "py_subscript v k = Inl TypeError"

text \<open>\<open>xs[i]\<close> on a list: a negative index counts from the end, out of range raises.\<close>

definition py_index :: "'a list \<Rightarrow> int \<Rightarrow> py_error + 'a" where
  "py_index xs i =
     (let n = int (length xs); j = (if i < 0 then i + n else i)
      in if 0 \<le> j \<and> j < n then Inr (xs ! nat j) else Inl IndexError)"

text \<open>Truth value of a Python object, as \<open>not due\<close> tests it.\<close>

fun truthy :: "pyval \<Rightarrow> bool" where
  "truthy PNone = False"
| "truthy (PBool b) = b"
| "truthy (PInt i) = (i \<noteq> 0)"
| "truthy (PFloat r) = (r \<noteq> 0)"
| "truthy (PStr s) = (s \<noteq> [])"
| "truthy (PList xs) = (xs \<noteq> [])"
| "truthy (PDict d) = (d \<noteq> [])"

section \<open>Floating-point arithmetic\<close>

text \<open>
  Python computes \<open>x - y\<close> and \<open>x + y\<close> on doubles: the exact result rounded to the
  nearest double, a tie going to the even significand. A double has 53 significant bits
  and an exponent of at least \<open>-1022\<close>; \<open>float_exponent x\<close> is the \<open>e\<close> with
  \<open>2 ^ e \<le> |x| < 2 ^ (e + 1)\<close>.
\<close>

definition round_half_even :: "real \<Rightarrow> int" where
  "round_half_even y =
     (let f = \<lfloor>y\<rfloor>
      in if y - of_int f < 1 / 2 then f
         else if 1 / 2 < y - of_int f then f + 1
         else if even f then f else f + 1)"

definition float_exponent :: "real \<Rightarrow> int" where
  "float_exponent x =
     (let a = \<bar>x\<bar>
      in if 1 \<le> a then bitlen \<lfloor>a\<rfloor> - 1 else - bitlen (\<lceil>1 / a\<rceil> - 1))"

definition round_double :: "real \<Rightarrow> real" where
  "round_double x =
     (let u = 2 powi (max (float_exponent x) (- 1022) - 52)
      in of_int (round_half_even (x / u)) * u)"

definition float_sub :: "real \<Rightarrow> real \<Rightarrow> real" where
  "float_sub x y = round_double (x - y)"

definition float_add :: "real \<Rightarrow> real \<Rightarrow> real" where
  "float_add x y = round_double (x + y)"

text \<open>
  The doubles that the literals \<open>1.3\<close>, \<open>0.2\<close> and \<open>0.05\<close> of the program denote
  (\<open>3.0\<close> and \<open>2.5\<close> are doubles as they stand).
\<close>

definition lit_1_3 :: real where
  "lit_1_3 = 5854679515581645 / 4503599627370496"

definition lit_0_2 :: real where
  "lit_0_2 = 3602879701896397 / 18014398509481984"

definition lit_0_05 :: real where
  "lit_0_05 = 3602879701896397 / 72057594037927936"

section \<open>The standard library\<close>

text \<open>
  The program calls four string functions of the Python library: \<open>str.lower\<close>,
  \<open>int\<close> and \<open>float\<close> on a string, and \<open>datetime.fromisoformat\<close>. They are parameters
  of the model, so every theorem holds for whatever these functions compute. A conversion
  that raises is \<open>None\<close>.
\<close>

record datetime =
  year :: int
  month :: int
  day :: int
  hour :: int
  minute :: int
  second :: int
  microsecond :: int
  utcoffset :: "int option"

record pylib =
  str_lower :: "string \<Rightarrow> string"
  int_of_str :: "string \<Rightarrow> int option"
  float_of_str :: "string \<Rightarrow> real option"
  fromisoformat :: "string \<Rightarrow> datetime option"

text \<open>
  \<open>float(v)\<close>: an integer is rounded to the nearest double, and one too large for a
  double raises \<open>OverflowError\<close>.
\<close>

fun py_float :: "pylib \<Rightarrow> pyval \<Rightarrow> py_error + real" where
  "py_float L (PFloat r) = Inr r"
| "py_float L (PInt i) =
     (if 2 ^ 1024 \<le> \<bar>round_double (of_int i)\<bar> then Inl OverflowError
      else Inr (round_double (of_int i)))"
| "py_float L (PBool b) = Inr (if b then 1 else 0)"
| "py_float L (PStr s) = (case float_of_str L s of None \<Rightarrow> Inl ValueError | Some r \<Rightarrow> Inr r)"
| "py_float L v = Inl TypeError"

text \<open>\<open>int(v)\<close>: a float is truncated towards zero.\<close>

fun py_int :: "pylib \<Rightarrow> pyval \<Rightarrow> py_error + int" where
  "py_int L (PInt i) = Inr i"
| "py_int L (PBool b) = Inr (if b then 1 else 0)"
| "py_int L (PFloat r) = Inr (if 0 \<le> r then \<lfloor>r\<rfloor> else \<lceil>r\<rceil>)"
| "py_int L (PStr s) = (case int_of_str L s of None \<Rightarrow> Inl ValueError | Some i \<Rightarrow> Inr i)"
| "py_int L v = Inl TypeError"

text \<open>\<open>v.lower()\<close>: only a string has the method.\<close>

fun py_lower :: "pylib \<Rightarrow> pyval \<Rightarrow> py_error + string" where
  "py_lower L (PStr s) = Inr (str_lower L s)"
| "py_lower L v = Inl AttributeError"

text \<open>\<open>datetime.fromisoformat(v)\<close>: the argument must be a string.\<close>

fun py_fromisoformat :: "pylib \<Rightarrow> pyval \<Rightarrow> py_error + datetime" where
  "py_fromisoformat L (PStr s) =
     (case fromisoformat L s of None \<Rightarrow> Inl ValueError | Some d \<Rightarrow> Inr d)"
| "py_fromisoformat L v = Inl TypeError"

section \<open>Dates\<close>

text \<open>
  A \<open>datetime\<close> carries its calendar fields; \<open>utcoffset\<close> is \<open>None\<close> for a naive
  value and the offset in seconds for an aware one. The day arithmetic follows the
  \<open>datetime\<close> module: a date is turned into its proleptic Gregorian ordinal and back.
\<close>

definition is_leap :: "int \<Rightarrow> bool" where
  "is_leap y = (y mod 4 = 0 \<and> (y mod 100 \<noteq> 0 \<or> y mod 400 = 0))"

definition days_before_year :: "int \<Rightarrow> int" where
  "days_before_year y = (y - 1) * 365 + (y - 1) div 4 - (y - 1) div 100 + (y - 1) div 400"

definition DAYS_IN_MONTH :: "int list" where
  "DAYS_IN_MONTH = [-1, 31, 28, 31, 30, 31, 30, 31, 31, 30, 31, 30, 31]"

definition DAYS_BEFORE_MONTH :: "int list" where
  "DAYS_BEFORE_MONTH = [-1, 0, 31, 59, 90, 120, 151, 181, 212, 243, 273, 304, 334]"

definition days_before_month :: "int \<Rightarrow> int \<Rightarrow> int" where
  "days_before_month y m =
     DAYS_BEFORE_MONTH ! nat m + (if m > 2 \<and> is_leap y then 1 else 0)"

definition ymd2ord :: "int \<Rightarrow> int \<Rightarrow> int \<Rightarrow> int" where
  "ymd2ord y m d = days_before_year y + days_before_month y m + d"

definition ord2ymd :: "int \<Rightarrow> int \<times> int \<times> int" where
  "ord2ymd n0 =
     (let n = n0 - 1;
          n400 = n div 146097; n = n mod 146097;
          y = n400 * 400 + 1;
          n100 = n div 36524; n = n mod 36524;
          n4 = n div 1461; n = n mod 1461;
          n1 = n div 365; n = n mod 365;
          y = y + n100 * 100 + n4 * 4 + n1
      in if n1 = 4 \<or> n100 = 4 then (y - 1, 12, 31)
         else
           let leapyear = (n1 = 3 \<and> (n4 \<noteq> 24 \<or> n100 = 3));
               m = (n + 50) div 32;
               preceding = DAYS_BEFORE_MONTH ! nat m + (if m > 2 \<and> leapyear then 1 else 0)
           in if preceding > n
              then (y, m - 1,
                    n - (preceding -
                         (DAYS_IN_MONTH ! nat (m - 1) + (if m - 1 = 2 \<and> leapyear then 1 else 0)))
                    + 1)
              else (y, m, n - preceding + 1))"

definition MAXORDINAL :: int where
  "MAXORDINAL = 3652059"

text \<open>
  \<open>dt + timedelta(days = n)\<close>: the time of day is kept, and a result outside the years
  1 to 9999 raises \<open>OverflowError\<close>.
\<close>

definition datetime_add_days :: "datetime \<Rightarrow> int \<Rightarrow> py_error + datetime" where
  "datetime_add_days dt n =
     (let ordinal = ymd2ord (year dt) (month dt) (day dt) + n
      in if 0 < ordinal \<and> ordinal \<le> MAXORDINAL
         then (case ord2ymd ordinal of
                 (y, m, d) \<Rightarrow> Inr (dt\<lparr>year := y, month := m, day := d\<rparr>))
         else Inl OverflowError)"

text \<open>
  \<open>a >= b\<close> on datetimes: two naive values compare by their fields in order; a naive and
  an aware value cannot be compared (\<open>TypeError\<close>); two aware values compare after their
  offsets are taken off.
\<close>

fun lex_ge :: "int list \<Rightarrow> int list \<Rightarrow> bool" where
  "lex_ge (x # xs) (y # ys) = (y < x \<or> (x = y \<and> lex_ge xs ys))"
| "lex_ge xs [] = True"
| "lex_ge [] (y # ys) = False"

definition timetuple :: "datetime \<Rightarrow> int list" where
  "timetuple d = [year d, month d, day d, hour d, minute d, second d, microsecond d]"

definition utc_seconds :: "datetime \<Rightarrow> int \<Rightarrow> int" where
  "utc_seconds d off =
     ((ymd2ord (year d) (month d) (day d) * 24 + hour d) * 60 + minute d) * 60 + second d - off"

definition datetime_ge :: "datetime \<Rightarrow> datetime \<Rightarrow> py_error + bool" where
  "datetime_ge a b =
     (case (utcoffset a, utcoffset b) of
        (None, None) \<Rightarrow> Inr (lex_ge (timetuple a) (timetuple b))
      | (Some oa, Some ob) \<Rightarrow>
          Inr (lex_ge [utc_seconds a oa, microsecond a] [utc_seconds b ob, microsecond b])
      | _ \<Rightarrow> Inl TypeError)"

text \<open>
  \<open>dt.isoformat()\<close>: date, the letter T, time of day, the microseconds when they are
  not zero, and the offset of an aware value. The fields of a datetime are within the
  widths printed here (the year has at most four digits).
\<close>

definition digit_char :: "int \<Rightarrow> char" where
  "digit_char n = ''0123456789'' ! nat (n mod 10)"

definition pad2 :: "int \<Rightarrow> string" where
  "pad2 n = [digit_char (n div 10), digit_char n]"

definition pad4 :: "int \<Rightarrow> string" where
  "pad4 n = [digit_char (n div 1000), digit_char (n div 100), digit_char (n div 10), digit_char n]"

definition pad6 :: "int \<Rightarrow> string" where
  "pad6 n = [digit_char (n div 100000), digit_char (n div 10000)] @ pad4 n"

definition format_offset :: "int \<Rightarrow> string" where
  "format_offset off =
     (let a = \<bar>off\<bar>
      in (if off < 0 then ''-'' else ''+'') @ pad2 (a div 3600) @ '':'' @ pad2 (a mod 3600 div 60)
         @ (if a mod 60 \<noteq> 0 then '':'' @ pad2 (a mod 60) else []))"

definition isoformat_date :: "datetime \<Rightarrow> string" where
  "isoformat_date d = pad4 (year d) @ ''-'' @ pad2 (month d) @ ''-'' @ pad2 (day d)"

definition isoformat_time :: "datetime \<Rightarrow> string" where
  "isoformat_time d =
     pad2 (hour d) @ '':'' @ pad2 (minute d) @ '':'' @ pad2 (second d)
     @ (if microsecond d \<noteq> 0 then ''.'' @ pad6 (microsecond d) else [])"

definition isoformat :: "datetime \<Rightarrow> string" where
  "isoformat d =
     isoformat_date d @ ''T'' @ isoformat_time d
     @ (case utcoffset d of None \<Rightarrow> [] | Some off \<Rightarrow> format_offset off)"

section \<open>Scheduling: \<open>src/utils/srs.py\<close> and \<open>src/utils/constants.py\<close>\<close>

definition SRS_INTERVALS_DAYS :: "int list" where
  "SRS_INTERVALS_DAYS = [1, 3, 7, 14, 30]"

definition DEFAULT_EASE :: real where
  "DEFAULT_EASE = 2.5"

text \<open>
  \<open>_today()\<close>: the clock's reading \<open>now\<close> (the naive value of \<open>datetime.utcnow()\<close>) is a
  parameter; the result is the same day at midnight.
\<close>

definition today :: "datetime \<Rightarrow> datetime" where
  "today now =
     \<lparr>year = year now, month = month now, day = day now,
      hour = 0, minute = 0, second = 0, microsecond = 0, utcoffset = None\<rparr>"

text \<open>
  \<open>is_due(card)\<close>: every exception raised inside the \<open>try\<close> block, by the parser or by
  the comparison, makes the card due.
\<close>

definition is_due :: "pylib \<Rightarrow> datetime \<Rightarrow> pydict \<Rightarrow> bool" where
  "is_due L now crd =
     (let due = dict_get crd ''due'' PNone
      in if \<not> truthy due then True
         else (case py_fromisoformat L due of
                 Inl e \<Rightarrow> True
               | Inr d \<Rightarrow> (case datetime_ge (today now) d of Inl e \<Rightarrow> True | Inr b \<Rightarrow> b)))"

text \<open>The \<open>if\<close>/\<open>elif\<close> chain of \<open>schedule_next\<close>: the new ease and the new step.\<close>

definition apply_quality :: "string \<Rightarrow> real \<Rightarrow> int \<Rightarrow> real \<times> int" where
  "apply_quality quality ease step =
     (if quality = ''again'' then (max lit_1_3 (float_sub ease lit_0_2), 0)
      else if quality = ''hard'' then (max lit_1_3 (float_sub ease lit_0_05), step)
      else if quality = ''good'' then (ease, min (step + 1) (int (length SRS_INTERVALS_DAYS) - 1))
      else if quality = ''easy''
        then (min 3.0 (float_add ease lit_0_05), min (step + 2) (int (length SRS_INTERVALS_DAYS) - 1))
      else (ease, min (step + 1) (int (length SRS_INTERVALS_DAYS) - 1)))"

text \<open>
  \<open>schedule_next(card, quality)\<close>: the three fields are assigned after everything that can
  raise, so an error leaves the card as it was.
\<close>

definition schedule_next :: "pylib \<Rightarrow> datetime \<Rightarrow> pydict \<Rightarrow> string \<Rightarrow> py_error + pydict" where
  "schedule_next L now crd quality =
     (case py_float L (dict_get crd ''ease'' (PFloat DEFAULT_EASE)) of
        Inl e \<Rightarrow> Inl e
      | Inr ease \<Rightarrow>
     (case py_int L (dict_get crd ''step'' (PInt 0)) of
        Inl e \<Rightarrow> Inl e
      | Inr step \<Rightarrow>
     (case apply_quality quality ease step of
        (ease', step') \<Rightarrow>
     (case py_index SRS_INTERVALS_DAYS step' of
        Inl e \<Rightarrow> Inl e
      | Inr days \<Rightarrow>
     (case datetime_add_days (today now) days of
        Inl e \<Rightarrow> Inl e
      | Inr next_due \<Rightarrow>
          Inr (dict_set ''due'' (PStr (isoformat next_due))
                (dict_set ''ease'' (PFloat ease')
                  (dict_set ''step'' (PInt step') crd))))))))"

section \<open>Storage: \<open>src/utils/storage.py\<close>\<close>

text \<open>
  The file at \<open>SRS_DB_PATH\<close> either does not exist or has a content. The content is
  kept as what \<open>json.loads\<close> makes of it: \<open>Corrupt\<close> for a text that cannot be read or
  parsed, \<open>Json v\<close> for a text that parses to \<open>v\<close> (so \<open>json.dumps\<close> followed by
  \<open>json.loads\<close> is the identity). Failures of the operating system (permissions, a full
  disk) are not modelled.
\<close>

datatype document = Corrupt | Json pyval

record filesystem =
  parent_exists :: bool
  doc :: "document option"

definition default_schema :: pyval where
  "default_schema = PDict [(''lessons'', PList []), (''cards'', PList [])]"

text \<open>\<open>_ensure_file()\<close>\<close>

definition ensure_file :: "filesystem \<Rightarrow> filesystem" where
  "ensure_file fs =
     (let fs1 = fs\<lparr>parent_exists := True\<rparr>
      in if doc fs1 = None then fs1\<lparr>doc := Some (Json default_schema)\<rparr> else fs1)"

text \<open>\<open>load_db()\<close>: the file system after the call, and the value returned.\<close>

definition load_db :: "filesystem \<Rightarrow> filesystem \<times> pyval" where
  "load_db fs =
     (let fs1 = ensure_file fs
      in (fs1, case doc fs1 of Some (Json v) \<Rightarrow> v | _ \<Rightarrow> default_schema))"

text \<open>\<open>save_db(db)\<close>\<close>

definition save_db :: "pyval \<Rightarrow> filesystem \<Rightarrow> filesystem" where
  "save_db db fs = (ensure_file fs)\<lparr>doc := Some (Json db)\<rparr>"

text \<open>
  The key \<open>(c["term"].lower(), c.get("lang", "auto"))\<close> as a dictionary key. The second
  component is hashed, so a list or a dictionary raises \<open>TypeError\<close>, and numbers that
  Python holds equal (\<open>True\<close>, \<open>1\<close> and \<open>1.0\<close>) are one key.
\<close>

type_synonym card_key = "string \<times> pyval"

fun hash_key :: "pyval \<Rightarrow> py_error + pyval" where
  "hash_key (PBool b) = Inr (PInt (if b then 1 else 0))"
| "hash_key (PFloat r) = Inr (if r = of_int \<lfloor>r\<rfloor> then PInt \<lfloor>r\<rfloor> else PFloat r)"
| "hash_key (PList xs) = Inl TypeError"
| "hash_key (PDict d) = Inl TypeError"
| "hash_key v = Inr v"

definition card_key :: "pylib \<Rightarrow> pyval \<Rightarrow> py_error + card_key" where
  "card_key L c =
     (case py_subscript c ''term'' of
        Inl e \<Rightarrow> Inl e
      | Inr t \<Rightarrow>
     (case py_lower L t of
        Inl e \<Rightarrow> Inl e
      | Inr lowered \<Rightarrow>
     (case c of
        PDict d \<Rightarrow>
          (case hash_key (dict_get d ''lang'' (PStr ''auto'')) of
             Inl e \<Rightarrow> Inl e
           | Inr lang \<Rightarrow> Inr (lowered, lang))
      | _ \<Rightarrow> Inl AttributeError)))"

text \<open>
  \<open>enumerate(db["cards"])\<close> iterates over whatever the document holds under
  \<open>"cards"\<close>: the elements of a list, the characters of a string, the keys of a
  dictionary.
\<close>

fun py_iter :: "pyval \<Rightarrow> py_error + pyval list" where
  "py_iter (PList xs) = Inr xs"
| "py_iter (PStr s) = Inr (map (\<lambda>c. PStr [c]) s)"
| "py_iter (PDict d) = Inr (map (\<lambda>kv. PStr (fst kv)) d)"
| "py_iter v = Inl TypeError"

text \<open>
  The dictionary comprehension that builds \<open>existing\<close>: a key that occurs twice keeps
  the later position.
\<close>

fun build_index ::
  "pylib \<Rightarrow> nat \<Rightarrow> pyval list \<Rightarrow> (card_key \<rightharpoonup> nat) \<Rightarrow> py_error + (card_key \<rightharpoonup> nat)" where
  "build_index L i [] existing = Inr existing"
| "build_index L i (c # cs) existing =
     (case card_key L c of
        Inl e \<Rightarrow> Inl e
      | Inr key \<Rightarrow> build_index L (Suc i) cs (existing(key \<mapsto> i)))"

text \<open>\<open>{k: v for k, v in new_card.items() if v is not None}\<close>\<close>

definition non_null_items :: "pydict \<Rightarrow> pydict" where
  "non_null_items new_card = filter (\<lambda>kv. snd kv \<noteq> PNone) new_card"

text \<open>\<open>db["cards"][idx].update(...)\<close>\<close>

definition merge_at :: "pyval \<Rightarrow> nat \<Rightarrow> pydict \<Rightarrow> py_error + pyval" where
  "merge_at cards idx new_card =
     (case cards of
        PList cs \<Rightarrow>
          (if idx < length cs
           then (case cs ! idx of
                   PDict d \<Rightarrow> Inr (PList (cs[idx := PDict (dict_update d (non_null_items new_card))]))
                 | _ \<Rightarrow> Inl AttributeError)
           else Inl IndexError)
      | _ \<Rightarrow> Inl TypeError)"

text \<open>\<open>db["cards"].append(new_card)\<close>: only a list has the method.\<close>

fun py_append :: "pyval \<Rightarrow> pyval \<Rightarrow> py_error + pyval" where
  "py_append (PList xs) x = Inr (PList (xs @ [x]))"
| "py_append v x = Inl AttributeError"

text \<open>
  The loop of \<open>upsert_cards\<close> over \<open>new_cards\<close>, on the value under \<open>"cards"\<close> and the
  counter. The index \<open>existing\<close> is the one built before the loop; the loop never
  changes it.
\<close>

fun upsert_loop ::
  "pylib \<Rightarrow> (card_key \<rightharpoonup> nat) \<Rightarrow> pydict list \<Rightarrow> pyval \<Rightarrow> int \<Rightarrow> py_error + pyval \<times> int" where
  "upsert_loop L existing [] cards count = Inr (cards, count)"
| "upsert_loop L existing (new_card # rest) cards count =
     (case card_key L (PDict new_card) of
        Inl e \<Rightarrow> Inl e
      | Inr key \<Rightarrow>
          (case (case existing key of
                   Some idx \<Rightarrow> merge_at cards idx new_card
                 | None \<Rightarrow> py_append cards (PDict new_card)) of
             Inl e \<Rightarrow> Inl e
           | Inr cards' \<Rightarrow> upsert_loop L existing rest cards' (count + 1)))"

text \<open>The document \<open>db\<close> after its list under \<open>"cards"\<close> was changed in place.\<close>

fun set_cards :: "pyval \<Rightarrow> pyval \<Rightarrow> pyval" where
  "set_cards (PDict d) cards = PDict (dict_set ''cards'' cards d)"
| "set_cards v cards = v"

text \<open>
  \<open>upsert_cards(new_cards)\<close>: the file system after the call, and the count returned or
  the exception raised. An exception leaves the file system as \<open>load_db\<close> left it.
\<close>

definition upsert_cards :: "pylib \<Rightarrow> pydict list \<Rightarrow> filesystem \<Rightarrow> filesystem \<times> (py_error + int)" where
  "upsert_cards L new_cards fs =
     (case load_db fs of
        (fs1, db) \<Rightarrow>
     (case py_subscript db ''cards'' of
        Inl e \<Rightarrow> (fs1, Inl e)
      | Inr cards \<Rightarrow>
     (case py_iter cards of
        Inl e \<Rightarrow> (fs1, Inl e)
      | Inr cs \<Rightarrow>
     (case build_index L 0 cs Map.empty of
        Inl e \<Rightarrow> (fs1, Inl e)
      | Inr existing \<Rightarrow>
     (case upsert_loop L existing new_cards cards 0 of
        Inl e \<Rightarrow> (fs1, Inl e)
      | Inr (cards', count) \<Rightarrow> (save_db (set_cards db cards') fs1, Inr count))))))"

section \<open>A library instance for examples\<close>

text \<open>
  The examples below run the model on a concrete library: lower case of the ASCII letters,
  decimal numerals, and the ISO shapes \<open>YYYY-MM-DD\<close>, \<open>YYYY-MM-DD?HH:MM:SS\<close> and
  \<open>YYYY-MM-DD?HH:MM:SS+HH:MM\<close> (with \<open>?\<close> any one character). On these strings it
  computes what Python computes, a decimal numeral being rounded to its double; it rejects
  the other spellings Python accepts and the numerals beyond the doubles, and no example
  uses one.
\<close>

definition ascii_lower :: "string \<Rightarrow> string" where
  "ascii_lower s =
     map (\<lambda>c. case map_of (zip ''ABCDEFGHIJKLMNOPQRSTUVWXYZ'' ''abcdefghijklmnopqrstuvwxyz'') c of
                 None \<Rightarrow> c | Some l \<Rightarrow> l) s"

definition digit_val :: "char \<Rightarrow> int option" where
  "digit_val c = map_of (zip ''0123456789'' [0, 1, 2, 3, 4, 5, 6, 7, 8, 9]) c"

fun digits_val :: "int \<Rightarrow> string \<Rightarrow> int option" where
  "digits_val acc [] = Some acc"
| "digits_val acc (c # cs) =
     (case digit_val c of None \<Rightarrow> None | Some v \<Rightarrow> digits_val (acc * 10 + v) cs)"

definition decimal :: "string \<Rightarrow> int option" where
  "decimal s = (if s = [] then None else digits_val 0 s)"

definition decimal_int :: "string \<Rightarrow> int option" where
  "decimal_int s =
     (case s of
        [] \<Rightarrow> None
      | c # cs \<Rightarrow>
          if c = CHR ''-'' then map_option uminus (decimal cs)
          else if c = CHR ''+'' then decimal cs
          else decimal s)"

definition decimal_value :: "string \<Rightarrow> real option" where
  "decimal_value s =
     (let whole = takeWhile (\<lambda>c. c \<noteq> CHR ''.'') s;
          rest = dropWhile (\<lambda>c. c \<noteq> CHR ''.'') s
      in case decimal_int whole of
           None \<Rightarrow> None
         | Some i \<Rightarrow>
             if rest = [] then Some (of_int i)
             else (case decimal (tl rest) of
                     None \<Rightarrow> None
                   | Some f \<Rightarrow>
                       Some ((if hd whole = CHR ''-'' then - 1 else 1)
                             * (of_int \<bar>i\<bar> + of_int f / 10 ^ length (tl rest)))))"

definition decimal_float :: "string \<Rightarrow> real option" where
  "decimal_float s =
     (case decimal_value s of
        None \<Rightarrow> None
      | Some r \<Rightarrow> if 2 ^ 1024 \<le> \<bar>round_double r\<bar> then None else Some (round_double r))"

definition days_in_month :: "int \<Rightarrow> int \<Rightarrow> int" where
  "days_in_month y m = (if m = 2 \<and> is_leap y then 29 else DAYS_IN_MONTH ! nat m)"

definition parse_date :: "string \<Rightarrow> (int \<times> int \<times> int) option" where
  "parse_date s =
     (if length s = 10 \<and> s ! 4 = CHR ''-'' \<and> s ! 7 = CHR ''-'' then
        (case (decimal (take 4 s), decimal (take 2 (drop 5 s)), decimal (drop 8 s)) of
           (Some y, Some m, Some d) \<Rightarrow>
             if 1 \<le> y \<and> 1 \<le> m \<and> m \<le> 12 \<and> 1 \<le> d \<and> d \<le> days_in_month y m
             then Some (y, m, d) else None
         | _ \<Rightarrow> None)
      else None)"

definition parse_time :: "string \<Rightarrow> (int \<times> int \<times> int) option" where
  "parse_time s =
     (if length s = 8 \<and> s ! 2 = CHR '':'' \<and> s ! 5 = CHR '':'' then
        (case (decimal (take 2 s), decimal (take 2 (drop 3 s)), decimal (drop 6 s)) of
           (Some h, Some m, Some x) \<Rightarrow>
             if h < 24 \<and> m < 60 \<and> x < 60 then Some (h, m, x) else None
         | _ \<Rightarrow> None)
      else None)"

definition parse_offset :: "string \<Rightarrow> int option" where
  "parse_offset s =
     (if length s = 6 \<and> (s ! 0 = CHR ''+'' \<or> s ! 0 = CHR ''-'') \<and> s ! 3 = CHR '':'' then
        (case (decimal (take 2 (drop 1 s)), decimal (drop 4 s)) of
           (Some h, Some m) \<Rightarrow>
             if h < 24 \<and> m < 60
             then Some ((if s ! 0 = CHR ''-'' then - 1 else 1) * (h * 3600 + m * 60))
             else None
         | _ \<Rightarrow> None)
      else None)"

definition iso_datetime :: "string \<Rightarrow> datetime option" where
  "iso_datetime s =
     (case parse_date (take 10 s) of
        None \<Rightarrow> None
      | Some (y, m, d) \<Rightarrow>
          if length s = 10 then
            Some \<lparr>year = y, month = m, day = d, hour = 0, minute = 0, second = 0,
                  microsecond = 0, utcoffset = None\<rparr>
          else
            (case parse_time (take 8 (drop 11 s)) of
               None \<Rightarrow> None
             | Some (h, mi, x) \<Rightarrow>
                 if length s = 19 then
                   Some \<lparr>year = y, month = m, day = d, hour = h, minute = mi, second = x,
                         microsecond = 0, utcoffset = None\<rparr>
                 else
                   (case parse_offset (drop 19 s) of
                      None \<Rightarrow> None
                    | Some off \<Rightarrow>
                        Some \<lparr>year = y, month = m, day = d, hour = h, minute = mi, second = x,
                              microsecond = 0, utcoffset = Some off\<rparr>)))"

definition ascii_lib :: pylib where
  "ascii_lib =
     \<lparr>str_lower = ascii_lower, int_of_str = decimal_int, float_of_str = decimal_float,
      fromisoformat = iso_datetime\<rparr>"

definition example_now :: datetime where
  "example_now =
     \<lparr>year = 2024, month = 1, day = 15, hour = 10, minute = 30, second = 5,
      microsecond = 7, utcoffset = None\<rparr>"

definition example_card :: pydict where
  "example_card =
     [(''term'', PStr ''Haus''), (''translation'', PStr ''house''), (''lang'', PStr ''German''),
      (''ease'', PFloat 2.5), (''step'', PInt 1), (''due'', PStr ''2024-01-16T00:00:00'')]"

definition example_fs :: filesystem where
  "example_fs =
     \<lparr>parent_exists = True,
      doc = Some (Json (PDict [(''lessons'', PList []), (''cards'', PList [PDict example_card])]))\<rparr>"

section \<open>What the specification says\<close>

text \<open>
  The transition table of the specification, written from its words: the grades
  \<open>again\<close>, \<open>hard\<close>, \<open>good\<close> and \<open>easy\<close>, and every other grade like \<open>good\<close>; \<open>K\<close> is
  the length of the interval ladder. The table's \<open>ease - 0.2\<close>, \<open>ease - 0.05\<close> and
  \<open>ease + 0.05\<close> are read as the program computes them, on doubles.
\<close>

definition spec_ease :: "string \<Rightarrow> real \<Rightarrow> real" where
  "spec_ease grade ease =
     (if grade = ''again'' then max lit_1_3 (float_sub ease lit_0_2)
      else if grade = ''hard'' then max lit_1_3 (float_sub ease lit_0_05)
      else if grade = ''good'' then ease
      else if grade = ''easy'' then min 3.0 (float_add ease lit_0_05)
      else ease)"

definition spec_step :: "string \<Rightarrow> int \<Rightarrow> int" where
  "spec_step grade step =
     (let K = int (length SRS_INTERVALS_DAYS)
      in if grade = ''again'' then 0
         else if grade = ''hard'' then step
         else if grade = ''good'' then min (step + 1) (K - 1)
         else if grade = ''easy'' then min (step + 2) (K - 1)
         else min (step + 1) (K - 1))"

text \<open>
  The invariant of a card: its ease (2.5 when the field is missing) is in \<open>[1.3, 3.0]\<close>
  and its step (0 when the field is missing) is in \<open>[0, K - 1]\<close>.
\<close>

definition ease_step_in_range :: "pylib \<Rightarrow> pydict \<Rightarrow> bool" where
  "ease_step_in_range L crd =
     (case (py_float L (dict_get crd ''ease'' (PFloat DEFAULT_EASE)),
            py_int L (dict_get crd ''step'' (PInt 0))) of
        (Inr ease, Inr step) \<Rightarrow>
          1.3 \<le> ease \<and> ease \<le> 3.0 \<and> 0 \<le> step \<and> step \<le> int (length SRS_INTERVALS_DAYS) - 1
      | _ \<Rightarrow> False)"

text \<open>A position the ladder has, counted from the front or (negative) from the end.\<close>

definition indexes_ladder :: "int \<Rightarrow> bool" where
  "indexes_ladder i = (- int (length SRS_INTERVALS_DAYS) \<le> i \<and> i < int (length SRS_INTERVALS_DAYS))"

text \<open>
  A reading of the clock from which the longest interval of the ladder does not leave
  the years a \<open>datetime\<close> can hold.
\<close>

definition valid_clock :: "datetime \<Rightarrow> bool" where
  "valid_clock now =
     (1 \<le> year now \<and> year now \<le> 9998 \<and> 1 \<le> month now \<and> month now \<le> 12
      \<and> 1 \<le> day now \<and> day now \<le> 31)"

text \<open>The form \<open>YYYY-MM-DD\<close> of a calendar date.\<close>

definition is_digit :: "char \<Rightarrow> bool" where
  "is_digit c = (c \<in> set ''0123456789'')"

definition calendar_date_form :: "string \<Rightarrow> bool" where
  "calendar_date_form s =
     (length s = 10 \<and> list_all is_digit (take 4 s) \<and> s ! 4 = CHR ''-''
      \<and> list_all is_digit (take 2 (drop 5 s)) \<and> s ! 7 = CHR ''-''
      \<and> list_all is_digit (drop 8 s))"

text \<open>
  A card graded several times in a row, each time at its own reading of the clock, as
  the review session does with \<open>schedule_next\<close> over the days.
\<close>

fun schedule_all :: "pylib \<Rightarrow> (datetime \<times> string) list \<Rightarrow> pydict \<Rightarrow> py_error + pydict" where
  "schedule_all L [] crd = Inr crd"
| "schedule_all L (g # rest) crd =
     (case schedule_next L (fst g) crd (snd g) of
        Inl e \<Rightarrow> Inl e
      | Inr crd' \<Rightarrow> schedule_all L rest crd')"

section \<open>Well-formed stores and items\<close>

text \<open>
  The cards the program finds in the store: the list under \<open>"cards"\<close> of what
  \<open>load_db\<close> returns, when it is a list.
\<close>

definition cards_of :: "filesystem \<Rightarrow> pyval list option" where
  "cards_of fs =
     (case py_subscript (snd (load_db fs)) ''cards'' of Inr (PList cs) \<Rightarrow> Some cs | _ \<Rightarrow> None)"

text \<open>
  A card or an item whose identity key can be computed: a dictionary with a string under
  \<open>"term"\<close> and, under \<open>"lang"\<close>, nothing or a value that can be hashed.
\<close>

definition has_key :: "pylib \<Rightarrow> pyval \<Rightarrow> bool" where
  "has_key L c = (case card_key L c of Inl e \<Rightarrow> False | Inr key \<Rightarrow> True)"

definition is_dict :: "pyval \<Rightarrow> bool" where
  "is_dict v = (case v of PDict d \<Rightarrow> True | _ \<Rightarrow> False)"

text \<open>The items the index \<open>existing\<close> sends to position \<open>i\<close> of the store.\<close>

definition sent_to :: "pylib \<Rightarrow> (card_key \<rightharpoonup> nat) \<Rightarrow> nat \<Rightarrow> pydict \<Rightarrow> bool" where
  "sent_to L existing i new_card =
     (case card_key L (PDict new_card) of Inl e \<Rightarrow> False | Inr key \<Rightarrow> existing key = Some i)"

text \<open>The items whose key the index \<open>existing\<close> does not hold.\<close>

definition new_to_store :: "pylib \<Rightarrow> (card_key \<rightharpoonup> nat) \<Rightarrow> pydict \<Rightarrow> bool" where
  "new_to_store L existing new_card =
     (case card_key L (PDict new_card) of Inl e \<Rightarrow> False | Inr key \<Rightarrow> existing key = None)"

section \<open>Lemmas on dictionaries, dates and the scheduler\<close>

lemma round_half_even_error: "\<bar>of_int (round_half_even y) - y\<bar> \<le> 1 / 2"
  unfolding round_half_even_def Let_def by (simp; linarith)

lemma abs_scaled: "0 < u \<Longrightarrow> \<bar>r * u - x\<bar> = \<bar>r - x / u\<bar> * (u::real)"
proof -
  assume u: "0 < u"
  then have "r * u - x = (r - x / u) * u" by (simp add: field_simps)
  then show ?thesis using u by (simp add: abs_mult)
qed

lemma powi_shift: "0 \<le> e \<Longrightarrow> (2::real) powi (e - 52) = 2 ^ nat e / 2 ^ 52"
proof -
  assume e: "0 \<le> e"
  have "(2::real) powi (e - 52) = 2 powi e / 2 powi 52"
    by (rule power_int_diff) simp
  also have "(2::real) powi e = 2 ^ nat e" using e by (simp add: power_int_def)
  also have "(2::real) powi 52 = 2 ^ 52" by (simp add: power_int_def)
  finally show ?thesis .
qed

lemma round_double_error:
  assumes "1 \<le> x"
  shows "\<bar>round_double x - x\<bar> \<le> x / 2 ^ 53"
proof -
  let ?n = "\<lfloor>x\<rfloor>"
  from assms have n: "0 < ?n" by simp
  let ?e = "bitlen ?n - 1"
  from bitlen_bounds[OF n] have b: "(2::int) ^ nat ?e \<le> ?n" by simp
  from n have e0: "0 \<le> ?e" by (auto simp: bitlen_alt_def)
  have ex: "float_exponent x = ?e" using assms by (simp add: float_exponent_def)
  let ?u = "(2::real) powi (?e - 52)"
  have upos: "0 < ?u" by simp
  have rd: "round_double x = of_int (round_half_even (x / ?u)) * ?u"
    using e0 by (simp add: round_double_def ex Let_def max_def)
  have "\<bar>round_double x - x\<bar> = \<bar>of_int (round_half_even (x / ?u)) - x / ?u\<bar> * ?u"
    unfolding rd using upos by (rule abs_scaled)
  also have "\<dots> \<le> 1 / 2 * ?u"
    using round_half_even_error[of "x / ?u"] upos by (intro mult_right_mono) simp_all
  also have "?u = 2 ^ nat ?e / 2 ^ 52"
    using e0 by (rule powi_shift)
  also have "1 / 2 * (2 ^ nat ?e / 2 ^ 52) = (2::real) ^ nat ?e / 2 ^ 53" by simp
  also have "\<dots> \<le> x / 2 ^ 53"
  proof -
    have "(2::real) ^ nat ?e = of_int (2 ^ nat ?e)" by simp
    also have "\<dots> \<le> of_int ?n" using b by (simp only: of_int_le_iff)
    also have "\<dots> \<le> x" by (rule of_int_floor_le)
    finally show ?thesis by (simp add: divide_right_mono)
  qed
  finally show ?thesis .
qed

lemma map_of_dict_set: "map_of (dict_set k v d) = (map_of d)(k \<mapsto> v)"
  by (induction d) (auto simp: fun_eq_iff)

lemma days_before_month_bounds:
  assumes "1 \<le> m" "m \<le> 12"
  shows "0 \<le> days_before_month y m \<and> days_before_month y m \<le> 335"
proof -
  from assms have "m = 1 \<or> m = 2 \<or> m = 3 \<or> m = 4 \<or> m = 5 \<or> m = 6 \<or> m = 7 \<or> m = 8
      \<or> m = 9 \<or> m = 10 \<or> m = 11 \<or> m = 12" by arith
  then show ?thesis
    by (auto simp: days_before_month_def DAYS_BEFORE_MONTH_def)
qed

lemma days_before_year_bounds:
  assumes "1 \<le> y" "y \<le> 9998"
  shows "0 \<le> days_before_year y \<and> days_before_year y \<le> 3651428"
proof -
  let ?x = "y - 1"
  have x: "0 \<le> ?x" "?x \<le> 9997" using assms by auto
  have a: "?x div 4 \<le> 9997 div 4" using x by (intro zdiv_mono1) auto
  have b: "?x div 400 \<le> 9997 div 400" using x by (intro zdiv_mono1) auto
  have c: "?x div 100 \<le> ?x div 4" using x by (intro zdiv_mono2) auto
  have d: "0 \<le> ?x div 100" "0 \<le> ?x div 400" using x by auto
  show ?thesis unfolding days_before_year_def using x a b c d by simp
qed

lemma add_days_ok:
  assumes "valid_clock now" "1 \<le> n" "n \<le> 30"
  shows "\<exists>d. datetime_add_days (today now) n = Inr d \<and> hour d = 0 \<and> minute d = 0 \<and> second d = 0
            \<and> microsecond d = 0 \<and> utcoffset d = None"
proof -
  let ?o = "ymd2ord (year now) (month now) (day now) + n"
  have "0 < ?o \<and> ?o \<le> MAXORDINAL"
    using assms days_before_month_bounds[of "month now" "year now"]
      days_before_year_bounds[of "year now"]
    by (simp add: valid_clock_def ymd2ord_def MAXORDINAL_def)
  then show ?thesis
    by (auto simp: datetime_add_days_def today_def Let_def split: prod.splits)
qed

lemma apply_quality_spec: "apply_quality grade ease step = (spec_ease grade ease, spec_step grade step)"
  by (simp add: apply_quality_def spec_ease_def spec_step_def Let_def)

lemma py_index_ladder:
  assumes "indexes_ladder i"
  shows "\<exists>days. py_index SRS_INTERVALS_DAYS i = Inr days \<and> 1 \<le> days \<and> days \<le> 30"
proof -
  from assms have "i = -5 \<or> i = -4 \<or> i = -3 \<or> i = -2 \<or> i = -1 \<or> i = 0 \<or> i = 1 \<or> i = 2 \<or> i = 3 \<or> i = 4"
    unfolding indexes_ladder_def SRS_INTERVALS_DAYS_def by simp arith
  then show ?thesis
    by (auto simp: py_index_def SRS_INTERVALS_DAYS_def)
qed

lemma py_index_ladder_error:
  "py_index SRS_INTERVALS_DAYS i = Inl e \<Longrightarrow> e = IndexError \<and> \<not> indexes_ladder i"
  by (auto simp: py_index_def indexes_ladder_def Let_def split: if_splits)

lemma py_index_ladder_Inr:
  "py_index SRS_INTERVALS_DAYS i = Inr days \<Longrightarrow> indexes_ladder i"
  by (auto simp: py_index_def indexes_ladder_def Let_def split: if_splits)

lemma time_kept:
  "datetime_add_days (today now) n = Inr d \<Longrightarrow>
     hour d = 0 \<and> minute d = 0 \<and> second d = 0 \<and> microsecond d = 0 \<and> utcoffset d = None"
  by (auto simp: datetime_add_days_def today_def Let_def split: prod.splits if_splits)

lemma isoformat_midnight:
  assumes "hour d = 0" "minute d = 0" "second d = 0" "microsecond d = 0" "utcoffset d = None"
  shows "isoformat d = isoformat_date d @ ''T00:00:00''"
  using assms by (simp add: isoformat_def isoformat_time_def pad2_def digit_char_def)

text \<open>The shape of a successful run of \<open>schedule_next\<close>, and when a run succeeds.\<close>

lemma schedule_next_Inr:
  assumes "schedule_next L now crd grade = Inr crd'"
  shows "\<exists>ease step days d.
           py_float L (dict_get crd ''ease'' (PFloat DEFAULT_EASE)) = Inr ease
         \<and> py_int L (dict_get crd ''step'' (PInt 0)) = Inr step
         \<and> py_index SRS_INTERVALS_DAYS (spec_step grade step) = Inr days
         \<and> datetime_add_days (today now) days = Inr d
         \<and> crd' = dict_set ''due'' (PStr (isoformat d))
                    (dict_set ''ease'' (PFloat (spec_ease grade ease))
                      (dict_set ''step'' (PInt (spec_step grade step)) crd))"
  using assms unfolding schedule_next_def
  by (auto simp: apply_quality_spec split: sum.splits)

lemma schedule_next_returns:
  assumes "py_float L (dict_get crd ''ease'' (PFloat DEFAULT_EASE)) = Inr ease"
      and "py_int L (dict_get crd ''step'' (PInt 0)) = Inr step"
      and "indexes_ladder (spec_step grade step)"
      and "valid_clock now"
  shows "\<exists>crd'. schedule_next L now crd grade = Inr crd'"
proof -
  from py_index_ladder[OF assms(3)] obtain days where
    d: "py_index SRS_INTERVALS_DAYS (spec_step grade step) = Inr days" "1 \<le> days" "days \<le> 30"
    by blast
  from add_days_ok[OF assms(4) d(2,3)] obtain dt where "datetime_add_days (today now) days = Inr dt"
    by blast
  with d assms(1,2) show ?thesis
    unfolding schedule_next_def by (simp add: apply_quality_spec)
qed

lemma fields_after:
  "map_of (dict_set ''due'' x (dict_set ''ease'' y (dict_set ''step'' z crd))) ''ease'' = Some y"
  "map_of (dict_set ''due'' x (dict_set ''ease'' y (dict_set ''step'' z crd))) ''step'' = Some z"
  "map_of (dict_set ''due'' x (dict_set ''ease'' y (dict_set ''step'' z crd))) ''due'' = Some x"
  by (simp_all add: map_of_dict_set)

lemma round_double_near:
  assumes "1 \<le> z"
  shows "z - z / 1000 \<le> round_double z \<and> round_double z \<le> z + z / 1000"
proof -
  have "z / 2 ^ 53 \<le> z / 1000"
    using assms by (intro divide_left_mono) simp_all
  with round_double_error[OF assms] have "\<bar>round_double z - z\<bar> \<le> z / 1000"
    by (rule order_trans)
  then show ?thesis by (simp only: abs_le_iff) linarith
qed

lemma literal_bounds:
  "(1.3::real) \<le> lit_1_3" "lit_1_3 \<le> 3"
  "(0.19::real) \<le> lit_0_2" "lit_0_2 \<le> 0.21"
  "(0.04::real) \<le> lit_0_05" "lit_0_05 \<le> 0.06"
  by (simp_all add: lit_1_3_def lit_0_2_def lit_0_05_def)

lemma float_sub_below_3:
  assumes "1.3 \<le> ease" "ease \<le> 3.0" "0.04 \<le> c" "c \<le> 0.21"
  shows "float_sub ease c \<le> 3"
proof -
  define z where "z = ease - c"
  from assms have z: "1 \<le> z" "z \<le> 2.96" by (simp_all add: z_def)
  from round_double_near[OF z(1)] have "round_double z \<le> z + z / 1000" by blast
  also from z(2) have "\<dots> \<le> 3" by simp
  finally show ?thesis by (simp add: float_sub_def z_def)
qed

lemma ease_again_range:
  assumes "1.3 \<le> ease" "ease \<le> 3.0"
  shows "1.3 \<le> max lit_1_3 (float_sub ease lit_0_2) \<and> max lit_1_3 (float_sub ease lit_0_2) \<le> 3.0"
proof -
  have "float_sub ease lit_0_2 \<le> 3"
    using assms literal_bounds(3,4) by (intro float_sub_below_3) simp_all
  with literal_bounds(1,2) show ?thesis by (auto simp: max_def)
qed

lemma ease_hard_range:
  assumes "1.3 \<le> ease" "ease \<le> 3.0"
  shows "1.3 \<le> max lit_1_3 (float_sub ease lit_0_05) \<and> max lit_1_3 (float_sub ease lit_0_05) \<le> 3.0"
proof -
  have "float_sub ease lit_0_05 \<le> 3"
    using assms literal_bounds(5,6) by (intro float_sub_below_3) simp_all
  with literal_bounds(1,2) show ?thesis by (auto simp: max_def)
qed

lemma ease_easy_range:
  assumes "1.3 \<le> ease" "ease \<le> 3.0"
  shows "1.3 \<le> min 3.0 (float_add ease lit_0_05) \<and> min 3.0 (float_add ease lit_0_05) \<le> 3.0"
proof -
  define z where "z = ease + lit_0_05"
  from assms literal_bounds(5) have z: "1 \<le> z" "1.34 \<le> z" by (simp_all add: z_def)
  from z(2) have "(1.3::real) \<le> z - z / 1000" by simp
  also from round_double_near[OF z(1)] have "\<dots> \<le> round_double z" by blast
  finally have "1.3 \<le> float_add ease lit_0_05" by (simp add: float_add_def z_def)
  then show ?thesis by (auto simp: min_def)
qed

lemma spec_ranges:
  assumes "1.3 \<le> ease" "ease \<le> 3.0" "0 \<le> step" "step \<le> int (length SRS_INTERVALS_DAYS) - 1"
  shows "1.3 \<le> spec_ease grade ease \<and> spec_ease grade ease \<le> 3.0
       \<and> 0 \<le> spec_step grade step \<and> spec_step grade step \<le> int (length SRS_INTERVALS_DAYS) - 1"
proof -
  have e: "1.3 \<le> spec_ease grade ease \<and> spec_ease grade ease \<le> 3.0"
    unfolding spec_ease_def
    using ease_again_range[OF assms(1,2)] ease_hard_range[OF assms(1,2)]
      ease_easy_range[OF assms(1,2)] assms(1,2)
    by (simp del: max.bounded_iff min.bounded_iff)
  have s: "0 \<le> spec_step grade step \<and> spec_step grade step \<le> int (length SRS_INTERVALS_DAYS) - 1"
    using assms(3,4) unfolding spec_step_def SRS_INTERVALS_DAYS_def Let_def
    by (auto simp: min_def)
  from e s show ?thesis by blast
qed

lemma double_examples:
  "float_add 2.5 lit_0_05 = 2871044762448691 / 1125899906842624"
  "float_sub (2589569785738035 / 1125899906842624) lit_0_2 = 1182194902184755 / 562949953421312"
  "float_sub 2.5 lit_0_2 = 2589569785738035 / 1125899906842624"
  by code_simp+

lemma in_range_after:
  "ease_step_in_range L (dict_set ''due'' x (dict_set ''ease'' (PFloat e) (dict_set ''step'' (PInt s) crd)))
   = (1.3 \<le> e \<and> e \<le> 3.0 \<and> 0 \<le> s \<and> s \<le> int (length SRS_INTERVALS_DAYS) - 1)"
  by (simp add: ease_step_in_range_def dict_get_def fields_after)

lemma schedule_next_range_step:
  assumes "ease_step_in_range L crd" "valid_clock now"
  shows "\<exists>crd' e s. schedule_next L now crd grade = Inr crd' \<and> ease_step_in_range L crd'
           \<and> map_of crd' ''ease'' = Some (PFloat e) \<and> 1.3 \<le> e \<and> e \<le> 3.0
           \<and> map_of crd' ''step'' = Some (PInt s) \<and> 0 \<le> s \<and> s \<le> int (length SRS_INTERVALS_DAYS) - 1"
proof -
  from assms(1) obtain ease step where
    c: "py_float L (dict_get crd ''ease'' (PFloat DEFAULT_EASE)) = Inr ease"
       "py_int L (dict_get crd ''step'' (PInt 0)) = Inr step"
    and r: "1.3 \<le> ease" "ease \<le> 3.0" "0 \<le> step" "step \<le> int (length SRS_INTERVALS_DAYS) - 1"
    unfolding ease_step_in_range_def by (auto split: sum.splits)
  note sr = spec_ranges[OF r, of grade]
  then have "indexes_ladder (spec_step grade step)"
    by (simp add: indexes_ladder_def)
  from schedule_next_returns[OF c this assms(2)] obtain crd' where
    ok: "schedule_next L now crd grade = Inr crd'" by blast
  from schedule_next_Inr[OF ok] c obtain d where
    "crd' = dict_set ''due'' (PStr (isoformat d))
              (dict_set ''ease'' (PFloat (spec_ease grade ease))
                (dict_set ''step'' (PInt (spec_step grade step)) crd))"
    by auto
  with ok sr show ?thesis
    by (auto simp: in_range_after fields_after)
qed

lemma schedule_all_range:
  assumes "ease_step_in_range L crd" "list_all (\<lambda>g. valid_clock (fst g)) history"
  shows "\<exists>crd'. schedule_all L history crd = Inr crd' \<and> ease_step_in_range L crd'"
  using assms
proof (induction history arbitrary: crd)
  case Nil
  then show ?case by simp
next
  case (Cons g rest)
  from Cons.prems have "valid_clock (fst g)" by simp
  from schedule_next_range_step[OF Cons.prems(1) this, of "snd g"] obtain c1 where
    c1: "schedule_next L (fst g) crd (snd g) = Inr c1" "ease_step_in_range L c1" by blast
  from Cons.IH[OF c1(2)] Cons.prems(2) obtain c2 where
    "schedule_all L rest c1 = Inr c2" "ease_step_in_range L c2" by auto
  with c1 show ?case by simp
qed

lemma py_float_error:
  "py_float L v = Inl e \<Longrightarrow> e = TypeError \<or> e = ValueError \<or> e = OverflowError"
  by (cases v) (auto split: option.splits if_splits)

lemma py_int_error: "py_int L v = Inl e \<Longrightarrow> e = TypeError \<or> e = ValueError"
  by (cases v) (auto split: option.splits)

lemma add_days_error: "datetime_add_days d n = Inl e \<Longrightarrow> e = OverflowError"
  by (auto simp: datetime_add_days_def Let_def split: if_splits prod.splits)

lemma is_digit_digit_char: "is_digit (digit_char n)"
proof -
  have "nat (n mod 10) < length ''0123456789''" by simp
  then have "''0123456789'' ! nat (n mod 10) \<in> set ''0123456789''"
    by (rule nth_mem)
  then show ?thesis by (simp only: is_digit_def digit_char_def)
qed

lemma isoformat_date_form: "calendar_date_form (isoformat_date d)"
  by (simp add: calendar_date_form_def isoformat_date_def pad4_def pad2_def is_digit_digit_char)

lemma length_isoformat_date: "length (isoformat_date d) = 10"
  by (simp add: isoformat_date_def pad4_def pad2_def)

lemma datetime_form_not_date: "\<not> calendar_date_form (isoformat_date d @ ''T00:00:00'')"
  by (simp add: calendar_date_form_def length_isoformat_date)

lemma add_days_date:
  "datetime_add_days dt n = Inr d \<Longrightarrow>
     (year d, month d, day d) = ord2ymd (ymd2ord (year dt) (month dt) (day dt) + n)"
  by (auto simp: datetime_add_days_def Let_def split: if_splits prod.splits)

text \<open>Definitions to unfold when the model runs on an example.\<close>

lemmas eval_defs = schedule_next_def dict_get_def DEFAULT_EASE_def apply_quality_def SRS_INTERVALS_DAYS_def
  py_index_def today_def example_now_def datetime_add_days_def ymd2ord_def days_before_year_def
  days_before_month_def DAYS_BEFORE_MONTH_def is_leap_def MAXORDINAL_def ord2ymd_def DAYS_IN_MONTH_def
  Let_def isoformat_def isoformat_date_def isoformat_time_def pad2_def pad4_def digit_char_def

lemmas parse_defs = ascii_lib_def iso_datetime_def parse_date_def parse_time_def parse_offset_def
  decimal_def digit_val_def days_in_month_def DAYS_IN_MONTH_def is_leap_def

lemma ex_parse:
  "fromisoformat ascii_lib ''2024-01-14'' = Some \<lparr>year = 2024, month = 1, day = 14, hour = 0, minute = 0, second = 0, microsecond = 0, utcoffset = None\<rparr>"
  "fromisoformat ascii_lib ''2024-01-16'' = Some \<lparr>year = 2024, month = 1, day = 16, hour = 0, minute = 0, second = 0, microsecond = 0, utcoffset = None\<rparr>"
  "fromisoformat ascii_lib ''2024-01-15T00:00:00'' = Some \<lparr>year = 2024, month = 1, day = 15, hour = 0, minute = 0, second = 0, microsecond = 0, utcoffset = None\<rparr>"
  "fromisoformat ascii_lib ''2999-01-01T00:00:00+00:00'' = Some \<lparr>year = 2999, month = 1, day = 1, hour = 0, minute = 0, second = 0, microsecond = 0, utcoffset = Some 0\<rparr>"
  "fromisoformat ascii_lib ''soon'' = None"
  by (simp_all add: parse_defs)

section \<open>The scheduler's claims\<close>



text \<open>
  C5. \<open>schedule_next\<close> keeps a card in range: from a card whose ease is in
  \<open>[1.3, 3.0]\<close> and whose step is in \<open>[0, K - 1]\<close>, every grade gives a card with the ease
  in \<open>[1.3, 3.0]\<close> and the step in \<open>[0, K - 1]\<close>. So does every sequence of grades, the
  repeated \<open>again\<close> and the repeated \<open>easy\<close> among them.
\<close>

theorem schedule_next_keeps_ranges:
  assumes "ease_step_in_range L crd"
  shows "(valid_clock now \<longrightarrow>
            (\<exists>crd' e s. schedule_next L now crd grade = Inr crd'
               \<and> map_of crd' ''ease'' = Some (PFloat e) \<and> 1.3 \<le> e \<and> e \<le> 3.0
               \<and> map_of crd' ''step'' = Some (PInt s) \<and> 0 \<le> s \<and> s \<le> int (length SRS_INTERVALS_DAYS) - 1
               \<and> ease_step_in_range L crd'))
       \<and> (list_all (\<lambda>g. valid_clock (fst g)) history \<longrightarrow>
            (\<exists>crd'. schedule_all L history crd = Inr crd' \<and> ease_step_in_range L crd'))"
  using schedule_next_range_step[OF assms, of now grade] schedule_all_range[OF assms, of history]
  by blast

theorem schedule_next_keeps_ranges_witness:
  "ease_step_in_range ascii_lib [(''ease'', PFloat lit_1_3), (''step'', PInt 4)]
   \<and> (\<exists>crd'. schedule_all ascii_lib
               [(example_now, ''again''), (example_now, ''again''), (example_now, ''easy'')]
               [(''ease'', PFloat lit_1_3), (''step'', PInt 4)] = Inr crd'
           \<and> ease_step_in_range ascii_lib crd')"
proof -
  let ?c = "[(''ease'', PFloat lit_1_3), (''step'', PInt 4)]"
  let ?h = "[(example_now, ''again''), (example_now, ''again''), (example_now, ''easy'')]"
  have a: "ease_step_in_range ascii_lib ?c"
    by (simp add: ease_step_in_range_def dict_get_def SRS_INTERVALS_DAYS_def lit_1_3_def)
  have b: "list_all (\<lambda>g. valid_clock (fst g)) ?h"
    by (simp add: valid_clock_def example_now_def)
  from schedule_next_keeps_ranges[OF a, of example_now "''again''" ?h] a b
  show ?thesis by blast
qed

text \<open>
  C10. When the step of the card is missing or an integer in \<open>[0, K - 1]\<close>, the position
  \<open>schedule_next\<close> reads in the ladder is within bounds for every grade, so the read never
  raises \<open>IndexError\<close>. Some such condition is needed: grade \<open>hard\<close> keeps the step as it
  is, and a card with step 5 makes the read fail.
\<close>

theorem ladder_index_in_bounds:
  assumes "map_of crd ''step'' = None
         \<or> (\<exists>s. map_of crd ''step'' = Some (PInt s) \<and> 0 \<le> s \<and> s < int (length SRS_INTERVALS_DAYS))"
  shows "schedule_next L now crd grade \<noteq> Inl IndexError
       \<and> (\<forall>ease. \<exists>step days. py_int L (dict_get crd ''step'' (PInt 0)) = Inr step
             \<and> py_index SRS_INTERVALS_DAYS (snd (apply_quality grade ease step)) = Inr days)
       \<and> schedule_next L now [(''step'', PInt 5)] ''hard'' = Inl IndexError"
proof -
  from assms obtain step where
    s: "py_int L (dict_get crd ''step'' (PInt 0)) = Inr step" "0 \<le> step"
       "step \<le> int (length SRS_INTERVALS_DAYS) - 1"
    by (auto simp: dict_get_def SRS_INTERVALS_DAYS_def)
  have idx: "indexes_ladder (spec_step grade step)"
    using s(2,3) by (auto simp: indexes_ladder_def spec_step_def SRS_INTERVALS_DAYS_def Let_def min_def)
  from py_index_ladder[OF idx] obtain days where
    d: "py_index SRS_INTERVALS_DAYS (spec_step grade step) = Inr days" by blast
  have 1: "schedule_next L now crd grade \<noteq> Inl IndexError"
    unfolding schedule_next_def using s(1) d
    by (auto simp: apply_quality_spec split: sum.splits
             dest: py_float_error add_days_error)
  have 2: "\<forall>ease. \<exists>step days. py_int L (dict_get crd ''step'' (PInt 0)) = Inr step
             \<and> py_index SRS_INTERVALS_DAYS (snd (apply_quality grade ease step)) = Inr days"
    using s(1) d by (auto simp: apply_quality_spec)
  have 3: "schedule_next L now [(''step'', PInt 5)] ''hard'' = Inl IndexError"
    by (simp add: schedule_next_def dict_get_def apply_quality_def py_index_def
          SRS_INTERVALS_DAYS_def)
  from 1 2 3 show ?thesis by blast
qed

theorem ladder_index_in_bounds_witness:
  "schedule_next ascii_lib example_now [(''step'', PInt 4)] ''hard'' \<noteq> Inl IndexError
   \<and> (\<exists>step days. py_int ascii_lib (dict_get [(''step'', PInt 4)] ''step'' (PInt 0)) = Inr step
         \<and> py_index SRS_INTERVALS_DAYS (snd (apply_quality ''hard'' 2.5 step)) = Inr days)"
proof -
  have "map_of [(''step'', PInt 4)] ''step'' = None
      \<or> (\<exists>s. map_of [(''step'', PInt 4)] ''step'' = Some (PInt s) \<and> 0 \<le> s
             \<and> s < int (length SRS_INTERVALS_DAYS))"
    by (simp add: SRS_INTERVALS_DAYS_def)
  from ladder_index_in_bounds[OF this, of ascii_lib example_now "''hard''"]
  show ?thesis by blast
qed

text \<open>
  C3 as the specification states it: the \<open>due\<close> field is a calendar date of the form
  \<open>YYYY-MM-DD\<close>. It is not: \<open>schedule_next\<close> serializes a \<open>datetime\<close>, so a card with
  no fields graded \<open>good\<close> on 15 January 2024 gets the \<open>due\<close> value
  \<open>2024-01-18T00:00:00\<close>.
\<close>

theorem schedule_next_due_counterexample:
  "schedule_next ascii_lib example_now [] ''good''
     = Inr [(''step'', PInt 1), (''ease'', PFloat 2.5), (''due'', PStr ''2024-01-18T00:00:00'')]
   \<and> \<not> calendar_date_form ''2024-01-18T00:00:00''"
  by (simp add: eval_defs calendar_date_form_def)

text \<open>
  C3, amended. Whenever \<open>schedule_next\<close> returns a card, its \<open>due\<close> field is the day of
  the clock's reading plus \<open>ladder[new step]\<close> days, serialized as the calendar date in the
  form \<open>YYYY-MM-DD\<close> followed by the midnight time of day \<open>T00:00:00\<close>, with no
  timezone offset. It returns a card under the conditions given for C2.
\<close>

theorem schedule_next_due_isoformat:
  "(schedule_next L now crd grade = Inr crd' \<longrightarrow>
      (\<exists>ease step days d.
           (case map_of crd ''ease'' of None \<Rightarrow> Inr 2.5 | Some v \<Rightarrow> py_float L v) = Inr ease
         \<and> (case map_of crd ''step'' of None \<Rightarrow> Inr 0 | Some v \<Rightarrow> py_int L v) = Inr step
         \<and> py_index SRS_INTERVALS_DAYS (spec_step grade step) = Inr days
         \<and> datetime_add_days (today now) days = Inr d
         \<and> (year d, month d, day d) = ord2ymd (ymd2ord (year now) (month now) (day now) + days)
         \<and> map_of crd' ''due'' = Some (PStr (isoformat_date d @ ''T00:00:00''))
         \<and> calendar_date_form (isoformat_date d)
         \<and> \<not> calendar_date_form (isoformat_date d @ ''T00:00:00'')))
   \<and> ((case map_of crd ''ease'' of None \<Rightarrow> Inr 2.5 | Some v \<Rightarrow> py_float L v) = Inr ease
        \<and> (case map_of crd ''step'' of None \<Rightarrow> Inr 0 | Some v \<Rightarrow> py_int L v) = Inr step
        \<and> indexes_ladder (spec_step grade step) \<and> valid_clock now \<longrightarrow>
      (\<exists>crd'. schedule_next L now crd grade = Inr crd'))"
proof (intro conjI impI)
  assume ret: "schedule_next L now crd grade = Inr crd'"
  from schedule_next_Inr[OF ret] obtain ease step days d where
    c: "py_float L (dict_get crd ''ease'' (PFloat DEFAULT_EASE)) = Inr ease"
       "py_int L (dict_get crd ''step'' (PInt 0)) = Inr step"
    and i: "py_index SRS_INTERVALS_DAYS (spec_step grade step) = Inr days"
    and a: "datetime_add_days (today now) days = Inr d"
    and r: "crd' = dict_set ''due'' (PStr (isoformat d))
                    (dict_set ''ease'' (PFloat (spec_ease grade ease))
                      (dict_set ''step'' (PInt (spec_step grade step)) crd))"
    by blast
  from c have c': "(case map_of crd ''ease'' of None \<Rightarrow> Inr 2.5 | Some v \<Rightarrow> py_float L v) = Inr ease"
       "(case map_of crd ''step'' of None \<Rightarrow> Inr 0 | Some v \<Rightarrow> py_int L v) = Inr step"
    by (simp_all add: dict_get_def DEFAULT_EASE_def split: option.splits)
  from time_kept[OF a] have "isoformat d = isoformat_date d @ ''T00:00:00''"
    by (intro isoformat_midnight) simp_all
  with r have due: "map_of crd' ''due'' = Some (PStr (isoformat_date d @ ''T00:00:00''))"
    by (simp add: fields_after)
  from add_days_date[OF a]
  have ymd: "(year d, month d, day d) = ord2ymd (ymd2ord (year now) (month now) (day now) + days)"
    by (simp add: today_def)
  from c' i a ymd due isoformat_date_form[of d] datetime_form_not_date[of d]
  show "\<exists>ease step days d.
           (case map_of crd ''ease'' of None \<Rightarrow> Inr 2.5 | Some v \<Rightarrow> py_float L v) = Inr ease
         \<and> (case map_of crd ''step'' of None \<Rightarrow> Inr 0 | Some v \<Rightarrow> py_int L v) = Inr step
         \<and> py_index SRS_INTERVALS_DAYS (spec_step grade step) = Inr days
         \<and> datetime_add_days (today now) days = Inr d
         \<and> (year d, month d, day d) = ord2ymd (ymd2ord (year now) (month now) (day now) + days)
         \<and> map_of crd' ''due'' = Some (PStr (isoformat_date d @ ''T00:00:00''))
         \<and> calendar_date_form (isoformat_date d)
         \<and> \<not> calendar_date_form (isoformat_date d @ ''T00:00:00'')"
    by blast
next
  assume pre: "(case map_of crd ''ease'' of None \<Rightarrow> Inr 2.5 | Some v \<Rightarrow> py_float L v) = Inr ease
        \<and> (case map_of crd ''step'' of None \<Rightarrow> Inr 0 | Some v \<Rightarrow> py_int L v) = Inr step
        \<and> indexes_ladder (spec_step grade step) \<and> valid_clock now"
  then have e: "py_float L (dict_get crd ''ease'' (PFloat DEFAULT_EASE)) = Inr ease"
    and s: "py_int L (dict_get crd ''step'' (PInt 0)) = Inr step"
    by (simp_all add: dict_get_def DEFAULT_EASE_def split: option.splits)
  from pre have i: "indexes_ladder (spec_step grade step)" and c: "valid_clock now"
    by blast+
  from schedule_next_returns[OF e s i c]
  show "\<exists>crd'. schedule_next L now crd grade = Inr crd'" .
qed

theorem schedule_next_due_isoformat_witness:
  "\<exists>crd' d. schedule_next ascii_lib example_now [] ''good'' = Inr crd'
      \<and> datetime_add_days (today example_now) 3 = Inr d
      \<and> (year d, month d, day d) = (2024, 1, 18)
      \<and> map_of crd' ''due'' = Some (PStr (isoformat_date d @ ''T00:00:00''))
      \<and> isoformat_date d @ ''T00:00:00'' = ''2024-01-18T00:00:00''
      \<and> calendar_date_form (isoformat_date d)"
proof -
  have pre: "(case map_of [] ''ease'' of None \<Rightarrow> Inr 2.5 | Some v \<Rightarrow> py_float ascii_lib v) = Inr 2.5
        \<and> (case map_of [] ''step'' of None \<Rightarrow> Inr 0 | Some v \<Rightarrow> py_int ascii_lib v) = Inr 0
        \<and> indexes_ladder (spec_step ''good'' 0) \<and> valid_clock example_now"
    by (simp add: indexes_ladder_def spec_step_def SRS_INTERVALS_DAYS_def valid_clock_def
          example_now_def)
  from schedule_next_due_isoformat[of ascii_lib example_now "[]" "''good''" _ "2.5" 0] pre
  obtain crd' where r: "schedule_next ascii_lib example_now [] ''good'' = Inr crd'"
    by blast
  from schedule_next_due_isoformat[of ascii_lib example_now "[]" "''good''" crd' "2.5" 0] r
  obtain days d where
    "py_index SRS_INTERVALS_DAYS (spec_step ''good'' 0) = Inr days"
    "datetime_add_days (today example_now) days = Inr d"
    "(year d, month d, day d)
       = ord2ymd (ymd2ord (year example_now) (month example_now) (day example_now) + days)"
    "map_of crd' ''due'' = Some (PStr (isoformat_date d @ ''T00:00:00''))"
    "calendar_date_form (isoformat_date d)"
    by auto
  with r show ?thesis
    by (auto simp: eval_defs spec_step_def)
qed

section \<open>The due-date evaluator's claim\<close>

text \<open>
  C4 as the specification states it: a \<open>due\<close> value that parses is due exactly when
  today is greater than or equal to it, so a due date of tomorrow is not due. It is due
  when the value carries a UTC offset: on 15 January 2024 the value
  \<open>2024-01-16T00:00:00+00:00\<close> parses, lies after today, and \<open>is_due\<close> is true. The
  comparison of today, which has no offset, with such a value raises inside the \<open>try\<close>
  block, and the \<open>except\<close> clause answers true.
\<close>

theorem is_due_offset_counterexample:
  "fromisoformat ascii_lib ''2024-01-16T00:00:00+00:00''
     = Some \<lparr>year = 2024, month = 1, day = 16, hour = 0, minute = 0, second = 0,
             microsecond = 0, utcoffset = Some 0\<rparr>
 \<and> \<not> lex_ge (timetuple (today example_now)) [2024, 1, 16, 0, 0, 0, 0]
 \<and> is_due ascii_lib example_now [(''due'', PStr ''2024-01-16T00:00:00+00:00'')]"
  by (simp add: parse_defs is_due_def dict_get_def datetime_ge_def today_def example_now_def
        timetuple_def)

text \<open>
  C4, amended. \<open>is_due\<close> returns true when the \<open>due\<close> field is missing, when it is
  empty (or any other false value), when it cannot be parsed as a date, and when it
  parses to a date and time with a UTC offset. When it parses to a date and time without
  offset, \<open>is_due\<close> is true exactly when today at midnight is greater than or equal to
  it.
\<close>

theorem is_due_fail_open:
  "(map_of crd ''due'' = None \<longrightarrow> is_due L now crd)
 \<and> (map_of crd ''due'' = Some v \<and> \<not> truthy v \<longrightarrow> is_due L now crd)
 \<and> (map_of crd ''due'' = Some v \<and> py_fromisoformat L v = Inl e \<longrightarrow> is_due L now crd)
 \<and> (map_of crd ''due'' = Some (PStr s) \<and> s \<noteq> [] \<and> fromisoformat L s = Some d \<and> utcoffset d = None \<longrightarrow>
      is_due L now crd
        = lex_ge [year now, month now, day now, 0, 0, 0, 0]
                 [year d, month d, day d, hour d, minute d, second d, microsecond d])
 \<and> (map_of crd ''due'' = Some (PStr s) \<and> fromisoformat L s = Some d \<and> utcoffset d \<noteq> None \<longrightarrow>
      is_due L now crd)"
  by (auto simp: is_due_def dict_get_def datetime_ge_def timetuple_def today_def Let_def
           split: option.splits sum.splits)

theorem is_due_fail_open_witness:
  "is_due ascii_lib example_now []
 \<and> is_due ascii_lib example_now [(''due'', PNone)]
 \<and> is_due ascii_lib example_now [(''due'', PStr '''')]
 \<and> is_due ascii_lib example_now [(''due'', PStr ''soon'')]
 \<and> is_due ascii_lib example_now [(''due'', PStr ''2024-01-14'')]
 \<and> is_due ascii_lib example_now [(''due'', PStr ''2024-01-15T00:00:00'')]
 \<and> \<not> is_due ascii_lib example_now [(''due'', PStr ''2024-01-16'')]
 \<and> is_due ascii_lib example_now [(''due'', PStr ''2999-01-01T00:00:00+00:00'')]"
proof -
  note t = is_due_fail_open[where L = ascii_lib and now = example_now]
  have 1: "is_due ascii_lib example_now []"
    using t[of "[]"] by simp
  have 2: "is_due ascii_lib example_now [(''due'', PNone)]"
    using t[of "[(''due'', PNone)]" PNone] by simp
  have 3: "is_due ascii_lib example_now [(''due'', PStr '''')]"
    using t[of "[(''due'', PStr '''')]" "PStr ''''"] by simp
  have 4: "is_due ascii_lib example_now [(''due'', PStr ''soon'')]"
    using t[of "[(''due'', PStr ''soon'')]" "PStr ''soon''" ValueError] by (simp add: ex_parse)
  have 5: "is_due ascii_lib example_now [(''due'', PStr ''2024-01-14'')]"
    using t[of "[(''due'', PStr ''2024-01-14'')]" _ _ "''2024-01-14''"
        "\<lparr>year = 2024, month = 1, day = 14, hour = 0, minute = 0, second = 0, microsecond = 0, utcoffset = None\<rparr>"]
    by (simp add: ex_parse example_now_def)
  have 6: "is_due ascii_lib example_now [(''due'', PStr ''2024-01-15T00:00:00'')]"
    using t[of "[(''due'', PStr ''2024-01-15T00:00:00'')]" _ _ "''2024-01-15T00:00:00''"
        "\<lparr>year = 2024, month = 1, day = 15, hour = 0, minute = 0, second = 0, microsecond = 0, utcoffset = None\<rparr>"]
    by (simp add: ex_parse example_now_def)
  have 7: "\<not> is_due ascii_lib example_now [(''due'', PStr ''2024-01-16'')]"
    using t[of "[(''due'', PStr ''2024-01-16'')]" _ _ "''2024-01-16''"
        "\<lparr>year = 2024, month = 1, day = 16, hour = 0, minute = 0, second = 0, microsecond = 0, utcoffset = None\<rparr>"]
    by (simp add: ex_parse example_now_def)
  have 8: "is_due ascii_lib example_now [(''due'', PStr ''2999-01-01T00:00:00+00:00'')]"
    using t[of "[(''due'', PStr ''2999-01-01T00:00:00+00:00'')]" _ _ "''2999-01-01T00:00:00+00:00''"
        "\<lparr>year = 2999, month = 1, day = 1, hour = 0, minute = 0, second = 0, microsecond = 0, utcoffset = Some 0\<rparr>"]
    by (simp add: ex_parse)
  from 1 2 3 4 5 6 7 8 show ?thesis by blast
qed

section \<open>Lemmas on the store\<close>

lemma ensure_file_idem: "ensure_file (ensure_file fs) = ensure_file fs"
  by (simp add: ensure_file_def Let_def)

lemma ensure_file_existing: "doc fs \<noteq> None \<Longrightarrow> parent_exists fs \<Longrightarrow> ensure_file fs = fs"
  by (simp add: ensure_file_def Let_def)

lemma load_db_after_load: "load_db (fst (load_db fs)) = load_db fs"
  by (simp add: load_db_def Let_def ensure_file_idem)

lemma card_key_missing_term: "map_of d ''term'' = None \<Longrightarrow> card_key L (PDict d) = Inl KeyError"
  by (simp add: card_key_def)

lemma upsert_loop_missing_term:
  assumes "\<exists>new_card \<in> set new_cards. map_of new_card ''term'' = None"
  shows "\<exists>e. upsert_loop L existing new_cards cards count = Inl e"
  using assms
proof (induction new_cards arbitrary: cards count)
  case Nil
  then show ?case by simp
next
  case (Cons new_card rest)
  show ?case
  proof (cases "map_of new_card ''term'' = None")
    case True
    then show ?thesis by (simp add: card_key_missing_term)
  next
    case False
    with Cons.prems have "\<exists>c \<in> set rest. map_of c ''term'' = None" by auto
    from Cons.IH[OF this] show ?thesis
      by (auto split: sum.splits option.splits)
  qed
qed

lemma upsert_cards_error_fs:
  "snd (upsert_cards L new_cards fs) = Inl e \<Longrightarrow> fst (upsert_cards L new_cards fs) = fst (load_db fs)"
  by (auto simp: upsert_cards_def split: prod.splits sum.splits)

lemma upsert_cards_loop_error:
  assumes "\<And>existing cards. \<exists>e. upsert_loop L existing new_cards cards 0 = Inl e"
  shows "\<exists>e. snd (upsert_cards L new_cards fs) = Inl e"
proof -
  obtain fs1 db where l: "load_db fs = (fs1, db)" by (cases "load_db fs")
  show ?thesis
  proof (cases "py_subscript db ''cards''")
    case (Inl e) with l show ?thesis by (simp add: upsert_cards_def)
  next
    case (Inr cards)
    show ?thesis
    proof (cases "py_iter cards")
      case (Inl e) with l Inr show ?thesis by (simp add: upsert_cards_def)
    next
      case cs: (Inr cs)
      show ?thesis
      proof (cases "build_index L 0 cs Map.empty")
        case (Inl e) with l Inr cs show ?thesis by (simp add: upsert_cards_def)
      next
        case ex: (Inr existing)
        from assms[of existing cards] obtain e where "upsert_loop L existing new_cards cards 0 = Inl e"
          by blast
        with l Inr cs ex show ?thesis by (simp add: upsert_cards_def)
      qed
    qed
  qed
qed

lemma has_key_dict: "has_key L c \<Longrightarrow> \<exists>d. c = PDict d"
  by (cases c) (auto simp: has_key_def card_key_def split: sum.splits)

lemma has_key_Inr: "has_key L c \<Longrightarrow> \<exists>key. card_key L c = Inr key"
  by (auto simp: has_key_def split: sum.splits)

lemma build_index_ok:
  "list_all (has_key L) cs \<Longrightarrow> \<exists>existing'. build_index L i cs existing = Inr existing'"
proof (induction cs arbitrary: i existing)
  case Nil
  then show ?case by simp
next
  case (Cons c cs)
  from Cons.prems obtain key where "card_key L c = Inr key"
    by (auto dest: has_key_Inr)
  moreover from Cons.prems have "list_all (has_key L) cs" by simp
  ultimately show ?case using Cons.IH by simp
qed

lemma build_index_range:
  "build_index L i cs existing = Inr existing' \<Longrightarrow> existing' key = Some j \<Longrightarrow>
     existing key = Some j \<or> (i \<le> j \<and> j < i + length cs)"
proof (induction cs arbitrary: i existing)
  case Nil
  then show ?case by simp
next
  case (Cons c cs)
  from Cons.prems(1) obtain k where k: "card_key L c = Inr k"
    and r: "build_index L (Suc i) cs (existing(k \<mapsto> i)) = Inr existing'"
    by (auto split: sum.splits)
  from Cons.IH[OF r Cons.prems(2)] show ?case
    by (auto split: if_splits)
qed

lemma build_index_other:
  "build_index L i cs existing = Inr existing' \<Longrightarrow> \<forall>c \<in> set cs. card_key L c \<noteq> Inr key \<Longrightarrow>
     existing' key = existing key"
proof (induction cs arbitrary: i existing)
  case Nil
  then show ?case by simp
next
  case (Cons c cs)
  from Cons.prems(1) obtain k where k: "card_key L c = Inr k"
    and r: "build_index L (Suc i) cs (existing(k \<mapsto> i)) = Inr existing'"
    by (auto split: sum.splits)
  from Cons.prems(2) k have "k \<noteq> key" "\<forall>c \<in> set cs. card_key L c \<noteq> Inr key" by auto
  with Cons.IH[OF r] show ?case by simp
qed

lemma build_index_points:
  "build_index L i cs existing = Inr existing' \<Longrightarrow> existing' key = Some j \<Longrightarrow>
     existing key = Some j \<or> (i \<le> j \<and> j < i + length cs \<and> card_key L (cs ! (j - i)) = Inr key)"
proof (induction cs arbitrary: i existing)
  case Nil
  then show ?case by simp
next
  case (Cons c cs)
  from Cons.prems(1) obtain k where k: "card_key L c = Inr k"
    and r: "build_index L (Suc i) cs (existing(k \<mapsto> i)) = Inr existing'"
    by (auto split: sum.splits)
  from Cons.IH[OF r Cons.prems(2)]
  consider "(existing(k \<mapsto> i)) key = Some j"
    | "Suc i \<le> j" "j < Suc i + length cs" "card_key L (cs ! (j - Suc i)) = Inr key"
    by blast
  then show ?case
  proof cases
    case 1
    then show ?thesis using k by (auto split: if_splits)
  next
    case 2
    then have "(c # cs) ! (j - i) = cs ! (j - Suc i)"
      by (simp add: nth_Cons split: nat.splits) (metis Suc_diff_Suc Suc_le_lessD nat.inject)
    with 2 show ?thesis by simp
  qed
qed

lemma build_index_last:
  "build_index L i cs existing = Inr existing' \<Longrightarrow> j < length cs \<Longrightarrow>
     card_key L (cs ! j) = Inr key \<Longrightarrow>
     \<forall>j'. j < j' \<and> j' < length cs \<longrightarrow> card_key L (cs ! j') \<noteq> Inr key \<Longrightarrow>
     existing' key = Some (i + j)"
proof (induction cs arbitrary: i j existing)
  case Nil
  then show ?case by simp
next
  case (Cons c cs)
  from Cons.prems(1) obtain k where k: "card_key L c = Inr k"
    and r: "build_index L (Suc i) cs (existing(k \<mapsto> i)) = Inr existing'"
    by (auto split: sum.splits)
  show ?case
  proof (cases j)
    case 0
    with Cons.prems(3) k have "k = key" by simp
    moreover have "\<forall>c' \<in> set cs. card_key L c' \<noteq> Inr key"
    proof
      fix c' assume "c' \<in> set cs"
      then obtain m where "m < length cs" "cs ! m = c'" by (auto simp: in_set_conv_nth)
      with Cons.prems(4)[rule_format, of "Suc m"] 0 show "card_key L c' \<noteq> Inr key" by auto
    qed
    ultimately show ?thesis using build_index_other[OF r] 0 by simp
  next
    case (Suc j')
    with Cons.prems have a: "j' < length cs" "card_key L (cs ! j') = Inr key" by auto
    have b: "\<forall>m. j' < m \<and> m < length cs \<longrightarrow> card_key L (cs ! m) \<noteq> Inr key"
    proof (intro allI impI)
      fix m assume "j' < m \<and> m < length cs"
      with Cons.prems(4)[rule_format, of "Suc m"] Suc show "card_key L (cs ! m) \<noteq> Inr key" by auto
    qed
    from Cons.IH[OF r a b] Suc show ?thesis by simp
  qed
qed

lemma map_of_dict_update:
  "distinct (map fst other) \<Longrightarrow>
     map_of (dict_update d other) f = (case map_of other f of None \<Rightarrow> map_of d f | Some v \<Rightarrow> Some v)"
proof (induction other arbitrary: d)
  case Nil
  then show ?case by (simp add: dict_update_def)
next
  case (Cons kv other)
  have u: "dict_update d (kv # other) = dict_update (dict_set (fst kv) (snd kv) d) other"
    by (simp add: dict_update_def)
  from Cons.prems have dist: "distinct (map fst other)" and fresh: "map_of other (fst kv) = None"
    by (auto simp: map_of_eq_None_iff)
  show ?case
    unfolding u Cons.IH[OF dist]
    using fresh by (cases kv) (auto simp: map_of_dict_set split: option.splits)
qed

lemma map_of_non_null_items:
  "map_of (non_null_items nc) f
     = (case map_of nc f of None \<Rightarrow> None | Some v \<Rightarrow> if v = PNone then None else Some v)"
  if "distinct (map fst nc)"
  using that
proof (induction nc)
  case Nil
  then show ?case by (simp add: non_null_items_def)
next
  case (Cons kv nc)
  then have "map_of nc (fst kv) = None" by (auto simp: map_of_eq_None_iff)
  with Cons show ?case
    by (cases kv) (auto simp: non_null_items_def split: option.splits)
qed

lemma distinct_non_null_items: "distinct (map fst nc) \<Longrightarrow> distinct (map fst (non_null_items nc))"
  by (simp add: non_null_items_def distinct_map_filter)

lemma map_of_merge:
  assumes "distinct (map fst nc)"
  shows "map_of (dict_update d (non_null_items nc)) f
           = (case map_of nc f of None \<Rightarrow> map_of d f
              | Some v \<Rightarrow> if v = PNone then map_of d f else Some v)"
  by (simp add: map_of_dict_update[OF distinct_non_null_items[OF assms]]
        map_of_non_null_items[OF assms] split: option.splits)

lemma map_of_merge_fold:
  assumes "list_all (\<lambda>nc. distinct (map fst nc)) ms"
      and "list_all (\<lambda>nc. map_of nc f = None \<or> map_of nc f = Some PNone) ms"
  shows "map_of (fold (\<lambda>nc acc. dict_update acc (non_null_items nc)) ms d) f = map_of d f"
  using assms
proof (induction ms arbitrary: d)
  case Nil
  then show ?case by simp
next
  case (Cons nc ms)
  then have "map_of (dict_update d (non_null_items nc)) f = map_of d f"
    by (auto simp: map_of_merge)
  with Cons show ?case by simp
qed

lemma is_dict_iff: "is_dict v \<longleftrightarrow> (\<exists>d. v = PDict d)"
  by (cases v) (simp_all add: is_dict_def)

lemma is_dict_PDict: "is_dict (PDict d)"
  by (simp add: is_dict_def)

lemma list_all_update: "list_all P xs \<Longrightarrow> P x \<Longrightarrow> list_all P (xs[i := x])"
  by (induction xs arbitrary: i) (auto split: nat.splits)

text \<open>The loop on a list of cards: it returns, counts every item, and leaves at each old
  position the card merged with the items the index sends there.\<close>

lemma upsert_loop_result:
  assumes "\<forall>key j. existing key = Some j \<longrightarrow> j < length cs"
      and "list_all is_dict cs"
      and "list_all (\<lambda>nc. has_key L (PDict nc)) new_cards"
  shows "\<exists>cs'. upsert_loop L existing new_cards (PList cs) count
                 = Inr (PList cs', count + int (length new_cards))
             \<and> length cs \<le> length cs' \<and> list_all is_dict cs'
             \<and> (\<forall>i d. i < length cs \<and> cs ! i = PDict d \<longrightarrow>
                   cs' ! i = PDict (fold (\<lambda>nc acc. dict_update acc (non_null_items nc))
                                (filter (sent_to L existing i) new_cards) d))"
  using assms
proof (induction new_cards arbitrary: cs count)
  case Nil
  then show ?case by simp
next
  case (Cons nc rest)
  from Cons.prems(3) obtain key where key: "card_key L (PDict nc) = Inr key"
    by (auto dest: has_key_Inr)
  from Cons.prems(3) have rest: "list_all (\<lambda>nc. has_key L (PDict nc)) rest" by simp
  let ?m = "sent_to L existing"
  let ?merge = "\<lambda>nc acc. dict_update acc (non_null_items nc)"
  show ?case
  proof (cases "existing key")
    case None
    let ?cs1 = "cs @ [PDict nc]"
    have b: "\<forall>key j. existing key = Some j \<longrightarrow> j < length ?cs1"
      using Cons.prems(1) by (auto simp: less_Suc_eq)
    have d: "list_all is_dict ?cs1" using Cons.prems(2) by (simp add: is_dict_PDict)
    from Cons.IH[OF b d rest, of "count + 1"] obtain cs' where
      r: "upsert_loop L existing rest (PList ?cs1) (count + 1) = Inr (PList cs', count + 1 + int (length rest))"
      and l: "length ?cs1 \<le> length cs'" and a: "list_all is_dict cs'"
      and f: "\<forall>i d. i < length ?cs1 \<and> ?cs1 ! i = PDict d \<longrightarrow>
                 cs' ! i = PDict (fold ?merge (filter (?m i) rest) d)"
      by blast
    have "upsert_loop L existing (nc # rest) (PList cs) count
            = Inr (PList cs', count + int (length (nc # rest)))"
      using key None r by (simp add: add.commute add.left_commute)
    moreover have "length cs \<le> length cs'" using l by simp
    moreover have "\<forall>i d. i < length cs \<and> cs ! i = PDict d \<longrightarrow>
                 cs' ! i = PDict (fold ?merge (filter (?m i) (nc # rest)) d)"
    proof (intro allI impI)
      fix i d assume h: "i < length cs \<and> cs ! i = PDict d"
      then have "i < length ?cs1 \<and> ?cs1 ! i = PDict d" by (simp add: nth_append)
      with f have "cs' ! i = PDict (fold ?merge (filter (?m i) rest) d)" by blast
      moreover have "\<not> ?m i nc" using key None by (simp add: sent_to_def)
      ultimately show "cs' ! i = PDict (fold ?merge (filter (?m i) (nc # rest)) d)" by simp
    qed
    ultimately show ?thesis using a by blast
  next
    case (Some j)
    with Cons.prems(1) have j: "j < length cs" by blast
    with Cons.prems(2) obtain dj where dj: "cs ! j = PDict dj"
      by (auto simp: list_all_length is_dict_iff)
    let ?cs1 = "cs[j := PDict (dict_update dj (non_null_items nc))]"
    have m: "merge_at (PList cs) j nc = Inr (PList ?cs1)"
      using j dj by (simp add: merge_at_def)
    have b: "\<forall>key j. existing key = Some j \<longrightarrow> j < length ?cs1"
      using Cons.prems(1) by simp
    have d: "list_all is_dict ?cs1"
      using Cons.prems(2) by (intro list_all_update) (simp_all add: is_dict_PDict)
    from Cons.IH[OF b d rest, of "count + 1"] obtain cs' where
      r: "upsert_loop L existing rest (PList ?cs1) (count + 1) = Inr (PList cs', count + 1 + int (length rest))"
      and l: "length ?cs1 \<le> length cs'" and a: "list_all is_dict cs'"
      and f: "\<forall>i d. i < length ?cs1 \<and> ?cs1 ! i = PDict d \<longrightarrow>
                 cs' ! i = PDict (fold ?merge (filter (?m i) rest) d)"
      by blast
    have "upsert_loop L existing (nc # rest) (PList cs) count
            = Inr (PList cs', count + int (length (nc # rest)))"
      using key Some m r by (simp add: add.commute add.left_commute)
    moreover have "length cs \<le> length cs'" using l by simp
    moreover have "\<forall>i d. i < length cs \<and> cs ! i = PDict d \<longrightarrow>
                 cs' ! i = PDict (fold ?merge (filter (?m i) (nc # rest)) d)"
    proof (intro allI impI)
      fix i d assume h: "i < length cs \<and> cs ! i = PDict d"
      show "cs' ! i = PDict (fold ?merge (filter (?m i) (nc # rest)) d)"
      proof (cases "i = j")
        case True
        with h dj have "d = dj" by simp
        with True j have "?cs1 ! i = PDict (dict_update d (non_null_items nc))" by simp
        with f h have "cs' ! i = PDict (fold ?merge (filter (?m i) rest) (dict_update d (non_null_items nc)))"
          by simp
        moreover have "?m i nc" using key Some True by (simp add: sent_to_def)
        ultimately show ?thesis by simp
      next
        case False
        with h have "?cs1 ! i = PDict d" by simp
        with f h have "cs' ! i = PDict (fold ?merge (filter (?m i) rest) d)" by simp
        moreover have "\<not> ?m i nc" using key Some False by (simp add: sent_to_def)
        ultimately show ?thesis by simp
      qed
    qed
    ultimately show ?thesis using a by blast
  qed
qed

lemma card_key_Inr_iff:
  "card_key L (PDict d) = Inr key \<longleftrightarrow>
     (\<exists>t. map_of d ''term'' = Some (PStr t) \<and> str_lower L t = fst key)
     \<and> hash_key (dict_get d ''lang'' (PStr ''auto'')) = Inr (snd key)"
proof (cases "map_of d ''term''")
  case None
  then show ?thesis by (simp add: card_key_def)
next
  case (Some v)
  then show ?thesis
    by (cases v; cases key) (auto simp: card_key_def split: sum.splits)
qed

lemma card_key_merge:
  assumes "card_key L (PDict nc) = Inr key" and "card_key L (PDict d) = Inr key"
      and "distinct (map fst nc)"
  shows "card_key L (PDict (dict_update d (non_null_items nc))) = Inr key"
proof -
  let ?m = "dict_update d (non_null_items nc)"
  note mm = map_of_merge[OF assms(3), of d]
  from assms(1) obtain t where t: "map_of nc ''term'' = Some (PStr t)" "str_lower L t = fst key"
    and ln: "hash_key (dict_get nc ''lang'' (PStr ''auto'')) = Inr (snd key)"
    by (auto simp: card_key_Inr_iff)
  from assms(2) have ld: "hash_key (dict_get d ''lang'' (PStr ''auto'')) = Inr (snd key)"
    by (simp add: card_key_Inr_iff)
  have tm: "map_of ?m ''term'' = Some (PStr t)"
    using t(1) by (simp add: mm)
  have "hash_key (dict_get ?m ''lang'' (PStr ''auto'')) = Inr (snd key)"
  proof (cases "map_of nc ''lang''")
    case None
    then have "dict_get ?m ''lang'' (PStr ''auto'') = dict_get d ''lang'' (PStr ''auto'')"
      by (simp add: dict_get_def mm)
    with ld show ?thesis by simp
  next
    case (Some v)
    show ?thesis
    proof (cases "v = PNone")
      case True
      with Some have "dict_get ?m ''lang'' (PStr ''auto'') = dict_get d ''lang'' (PStr ''auto'')"
        by (simp add: dict_get_def mm)
      with ld show ?thesis by simp
    next
      case False
      with Some have "dict_get ?m ''lang'' (PStr ''auto'') = dict_get nc ''lang'' (PStr ''auto'')"
        by (simp add: dict_get_def mm)
      with ln show ?thesis by simp
    qed
  qed
  with tm t(2) show ?thesis
    by (simp add: card_key_Inr_iff)
qed

lemma card_key_merge_fold:
  assumes "card_key L (PDict d) = Inr key"
      and "list_all (\<lambda>nc. card_key L (PDict nc) = Inr key \<and> distinct (map fst nc)) ms"
  shows "card_key L (PDict (fold (\<lambda>nc acc. dict_update acc (non_null_items nc)) ms d)) = Inr key"
  using assms
proof (induction ms arbitrary: d)
  case Nil
  then show ?case by simp
next
  case (Cons nc ms)
  then have "card_key L (PDict (dict_update d (non_null_items nc))) = Inr key"
    by (intro card_key_merge) simp_all
  with Cons show ?case by simp
qed

lemma upsert_loop_appended:
  assumes "\<forall>key j. existing key = Some j \<longrightarrow> j < length cs"
      and "list_all is_dict cs"
      and "list_all (\<lambda>nc. has_key L (PDict nc)) new_cards"
      and "upsert_loop L existing new_cards (PList cs) count = Inr (PList cs', count')"
  shows "drop (length cs) cs' = map PDict (filter (new_to_store L existing) new_cards)"
  using assms
proof (induction new_cards arbitrary: cs count)
  case Nil
  then show ?case by simp
next
  case (Cons nc rest)
  from Cons.prems(3) obtain key where key: "card_key L (PDict nc) = Inr key"
    by (auto dest: has_key_Inr)
  from Cons.prems(3) have rest: "list_all (\<lambda>nc. has_key L (PDict nc)) rest" by simp
  show ?case
  proof (cases "existing key")
    case None
    let ?cs1 = "cs @ [PDict nc]"
    have b: "\<forall>key j. existing key = Some j \<longrightarrow> j < length ?cs1"
      using Cons.prems(1) by (auto simp: less_Suc_eq)
    have d: "list_all is_dict ?cs1" using Cons.prems(2) by (simp add: is_dict_PDict)
    from Cons.prems(4) key None have
      r: "upsert_loop L existing rest (PList ?cs1) (count + 1) = Inr (PList cs', count')"
      by simp
    from Cons.IH[OF b d rest r]
    have tail: "drop (Suc (length cs)) cs' = map PDict (filter (new_to_store L existing) rest)"
      by simp
    from upsert_loop_result[OF b d rest, of "count + 1"] r obtain
      len: "length ?cs1 \<le> length cs'"
      and f: "\<forall>i d. i < length ?cs1 \<and> ?cs1 ! i = PDict d \<longrightarrow>
                 cs' ! i = PDict (fold (\<lambda>nc acc. dict_update acc (non_null_items nc))
                               (filter (sent_to L existing i) rest) d)"
      by auto
    have none: "filter (sent_to L existing (length cs)) rest = []"
      using Cons.prems(1) by (auto simp: filter_empty_conv sent_to_def split: sum.splits)
    from f[rule_format, of "length cs" nc] none have at: "cs' ! length cs = PDict nc" by simp
    from len have "length cs < length cs'" by simp
    then have "drop (length cs) cs' = cs' ! length cs # drop (Suc (length cs)) cs'"
      by (rule Cons_nth_drop_Suc[symmetric])
    with at tail have "drop (length cs) cs' = PDict nc # map PDict (filter (new_to_store L existing) rest)"
      by simp
    moreover have "new_to_store L existing nc" using key None by (simp add: new_to_store_def)
    ultimately show ?thesis by simp
  next
    case (Some j)
    with Cons.prems(1) have j: "j < length cs" by blast
    with Cons.prems(2) obtain dj where dj: "cs ! j = PDict dj"
      by (auto simp: list_all_length is_dict_iff)
    let ?cs1 = "cs[j := PDict (dict_update dj (non_null_items nc))]"
    have m: "merge_at (PList cs) j nc = Inr (PList ?cs1)"
      using j dj by (simp add: merge_at_def)
    have b: "\<forall>key j. existing key = Some j \<longrightarrow> j < length ?cs1"
      using Cons.prems(1) by simp
    have d: "list_all is_dict ?cs1"
      using Cons.prems(2) by (intro list_all_update) (simp_all add: is_dict_PDict)
    from Cons.prems(4) key Some m have
      r: "upsert_loop L existing rest (PList ?cs1) (count + 1) = Inr (PList cs', count')"
      by simp
    from Cons.IH[OF b d rest r]
    have "drop (length cs) cs' = map PDict (filter (new_to_store L existing) rest)"
      by simp
    moreover have "\<not> new_to_store L existing nc" using key Some by (simp add: new_to_store_def)
    ultimately show ?thesis by simp
  qed
qed

lemma has_key_iff:
  "has_key L (PDict d) \<longleftrightarrow>
     (\<exists>t. map_of d ''term'' = Some (PStr t))
     \<and> (\<exists>lang. hash_key (dict_get d ''lang'' (PStr ''auto'')) = Inr lang)"
proof (cases "map_of d ''term''")
  case None
  then show ?thesis by (simp add: has_key_def card_key_def)
next
  case (Some t)
  then show ?thesis
    by (cases t) (auto simp: has_key_def card_key_def split: sum.splits)
qed

lemma cards_of_save_db:
  "cards_of (save_db (PDict (dict_set ''cards'' (PList cs) d)) fs) = Some cs"
  by (simp add: cards_of_def load_db_def save_db_def ensure_file_def Let_def map_of_dict_set)

lemma upsert_cards_result:
  assumes "cards_of fs = Some cs"
      and "list_all (has_key L) cs"
      and "list_all (\<lambda>nc. has_key L (PDict nc)) new_cards"
  shows "\<exists>existing cs'.
           build_index L 0 cs Map.empty = Inr existing
         \<and> snd (upsert_cards L new_cards fs) = Inr (int (length new_cards))
         \<and> cards_of (fst (upsert_cards L new_cards fs)) = Some cs'
         \<and> length cs \<le> length cs'
         \<and> (\<forall>i d. i < length cs \<and> cs ! i = PDict d \<longrightarrow>
               cs' ! i = PDict (fold (\<lambda>nc acc. dict_update acc (non_null_items nc))
                            (filter (sent_to L existing i) new_cards) d))
         \<and> drop (length cs) cs' = map PDict (filter (new_to_store L existing) new_cards)"
proof -
  obtain fs1 db where l: "load_db fs = (fs1, db)" by (cases "load_db fs")
  with assms(1) have sub: "py_subscript db ''cards'' = Inr (PList cs)"
    by (auto simp: cards_of_def split: sum.splits pyval.splits)
  then obtain dd where db: "db = PDict dd" by (cases db) auto
  from build_index_ok[OF assms(2)] obtain existing where
    ex: "build_index L 0 cs Map.empty = Inr existing" by blast
  have range: "\<forall>key j. existing key = Some j \<longrightarrow> j < length cs"
    using build_index_range[OF ex] by auto
  have dicts: "list_all is_dict cs"
    using assms(2) by (auto simp: list_all_iff is_dict_iff dest: has_key_dict)
  from upsert_loop_result[OF range dicts assms(3), of 0] obtain cs' where
    r: "upsert_loop L existing new_cards (PList cs) 0 = Inr (PList cs', int (length new_cards))"
    and len: "length cs \<le> length cs'"
    and f: "\<forall>i d. i < length cs \<and> cs ! i = PDict d \<longrightarrow>
               cs' ! i = PDict (fold (\<lambda>nc acc. dict_update acc (non_null_items nc))
                            (filter (sent_to L existing i) new_cards) d)"
    by auto
  note app = upsert_loop_appended[OF range dicts assms(3) r]
  have u: "upsert_cards L new_cards fs
             = (save_db (set_cards db (PList cs')) fs1, Inr (int (length new_cards)))"
    using l sub ex r by (simp add: upsert_cards_def)
  have "cards_of (fst (upsert_cards L new_cards fs)) = Some cs'"
    unfolding u db by (simp add: cards_of_save_db)
  with ex u len f app show ?thesis
    by (intro exI[of _ existing] exI[of _ cs']) simp
qed

lemma sent_to_same_key:
  assumes "build_index L 0 cs Map.empty = Inr existing" and "sent_to L existing i nc"
  shows "i < length cs \<and> card_key L (PDict nc) = card_key L (cs ! i)"
proof -
  from assms(2) obtain key where key: "card_key L (PDict nc) = Inr key" "existing key = Some i"
    by (auto simp: sent_to_def split: sum.splits)
  from build_index_points[OF assms(1) key(2)] key(1) show ?thesis by simp
qed

lemma same_key_sent_to:
  assumes "build_index L 0 cs Map.empty = Inr existing"
      and "i < length cs"
      and "\<forall>j. i < j \<and> j < length cs \<longrightarrow> card_key L (cs ! j) \<noteq> card_key L (cs ! i)"
      and "has_key L (PDict nc)"
      and "card_key L (PDict nc) = card_key L (cs ! i)"
  shows "sent_to L existing i nc"
proof -
  from assms(4) obtain key where key: "card_key L (PDict nc) = Inr key"
    by (auto dest: has_key_Inr)
  with assms(5) have ki: "card_key L (cs ! i) = Inr key" by simp
  with assms(3) have "\<forall>j. i < j \<and> j < length cs \<longrightarrow> card_key L (cs ! j) \<noteq> Inr key" by simp
  from build_index_last[OF assms(1,2) ki this] key show ?thesis
    by (simp add: sent_to_def)
qed

lemma map_of_merge_fold_sub:
  assumes "list_all (\<lambda>nc. distinct (map fst nc)) ms"
      and "list_all (\<lambda>nc. P nc \<longrightarrow> map_of nc f = None \<or> map_of nc f = Some PNone) ms"
      and "list_all (\<lambda>nc. Q nc \<longrightarrow> P nc) ms"
  shows "map_of (fold (\<lambda>nc acc. dict_update acc (non_null_items nc)) (filter Q ms) d) f = map_of d f"
  using assms by (intro map_of_merge_fold) (auto simp: list_all_iff)

lemma build_index_dom:
  "build_index L i cs existing = Inr existing' \<Longrightarrow>
     existing key \<noteq> None \<or> (\<exists>c \<in> set cs. card_key L c = Inr key) \<Longrightarrow> existing' key \<noteq> None"
proof (induction cs arbitrary: i existing)
  case Nil
  then show ?case by simp
next
  case (Cons c cs)
  from Cons.prems(1) obtain k where k: "card_key L c = Inr k"
    and r: "build_index L (Suc i) cs (existing(k \<mapsto> i)) = Inr existing'"
    by (auto split: sum.splits)
  from Cons.prems(2) k
  have "(existing(k \<mapsto> i)) key \<noteq> None \<or> (\<exists>c \<in> set cs. card_key L c = Inr key)"
    by auto
  from Cons.IH[OF r this] show ?case .
qed

lemma new_to_store_iff:
  assumes "build_index L 0 cs Map.empty = Inr existing" and "has_key L (PDict nc)"
  shows "new_to_store L existing nc \<longleftrightarrow> card_key L (PDict nc) \<notin> card_key L ` set cs"
proof -
  from assms(2) obtain key where key: "card_key L (PDict nc) = Inr key"
    by (auto dest: has_key_Inr)
  show ?thesis
  proof
    assume "new_to_store L existing nc"
    with key have "existing key = None" by (simp add: new_to_store_def)
    with build_index_dom[OF assms(1), of key] have "\<not> (\<exists>c \<in> set cs. card_key L c = Inr key)"
      by auto
    with key show "card_key L (PDict nc) \<notin> card_key L ` set cs" by auto
  next
    assume "card_key L (PDict nc) \<notin> card_key L ` set cs"
    with key have "\<forall>c \<in> set cs. card_key L c \<noteq> Inr key" by (metis image_eqI)
    from build_index_other[OF assms(1) this] key show "new_to_store L existing nc"
      by (simp add: new_to_store_def)
  qed
qed

text \<open>
  What \<open>upsert_cards\<close> does keep: when the store has no duplicate keys and the items of
  the call that are new to the store have pairwise different keys, the store after the
  call has no duplicate keys.
\<close>

lemma upsert_unique_without_repeats:
  assumes "cards_of fs = Some cs"
      and "list_all (has_key L) cs"
      and "distinct (map (card_key L) cs)"
      and "list_all (\<lambda>new_card. has_key L (PDict new_card) \<and> distinct (map fst new_card)) new_cards"
      and "distinct (map (\<lambda>new_card. card_key L (PDict new_card))
                      (filter (\<lambda>new_card. card_key L (PDict new_card) \<notin> card_key L ` set cs)
                         new_cards))"
  shows "\<exists>cs'. cards_of (fst (upsert_cards L new_cards fs)) = Some cs'
             \<and> distinct (map (card_key L) cs')"
proof -
  let ?merge = "\<lambda>nc acc. dict_update acc (non_null_items nc)"
  let ?fresh = "\<lambda>nc. card_key L (PDict nc) \<notin> card_key L ` set cs"
  from assms(4) have keys: "list_all (\<lambda>nc. has_key L (PDict nc)) new_cards"
    and dist: "list_all (\<lambda>nc. distinct (map fst nc)) new_cards"
    by (auto simp: list_all_iff)
  from upsert_cards_result[OF assms(1,2) keys] obtain existing cs' where
    ex: "build_index L 0 cs Map.empty = Inr existing"
    and c: "cards_of (fst (upsert_cards L new_cards fs)) = Some cs'"
    and len: "length cs \<le> length cs'"
    and f: "\<forall>i d. i < length cs \<and> cs ! i = PDict d \<longrightarrow>
               cs' ! i = PDict (fold ?merge (filter (sent_to L existing i) new_cards) d)"
    and app: "drop (length cs) cs' = map PDict (filter (new_to_store L existing) new_cards)"
    by blast
  have old: "map (card_key L) (take (length cs) cs') = map (card_key L) cs"
  proof (rule nth_equalityI)
    show "length (map (card_key L) (take (length cs) cs')) = length (map (card_key L) cs)"
      using len by simp
  next
    fix i assume "i < length (map (card_key L) (take (length cs) cs'))"
    with len have i: "i < length cs" by simp
    with assms(2) have hk: "has_key L (cs ! i)" by (simp add: list_all_length)
    from has_key_dict[OF hk] obtain d where d: "cs ! i = PDict d" by blast
    from has_key_Inr[OF hk] obtain key where k: "card_key L (cs ! i) = Inr key" by blast
    have "list_all (\<lambda>nc. card_key L (PDict nc) = Inr key \<and> distinct (map fst nc))
            (filter (sent_to L existing i) new_cards)"
      using sent_to_same_key[OF ex, of i] k dist by (auto simp: list_all_iff)
    with k d have "card_key L (PDict (fold ?merge (filter (sent_to L existing i) new_cards) d)) = Inr key"
      by (intro card_key_merge_fold) simp_all
    with f i d k have "card_key L (cs' ! i) = card_key L (cs ! i)" by simp
    with i len show "map (card_key L) (take (length cs) cs') ! i = map (card_key L) cs ! i"
      by simp
  qed
  have "filter (new_to_store L existing) new_cards = filter ?fresh new_cards"
    using keys by (intro filter_cong refl new_to_store_iff[OF ex]) (simp add: list_all_iff)
  with app have new: "map (card_key L) (drop (length cs) cs')
                        = map (\<lambda>nc. card_key L (PDict nc)) (filter ?fresh new_cards)"
    by (simp add: comp_def)
  have "map (card_key L) cs' = map (card_key L) (take (length cs) cs') @ map (card_key L) (drop (length cs) cs')"
    by (simp flip: map_append)
  with old new have "map (card_key L) cs'
      = map (card_key L) cs @ map (\<lambda>nc. card_key L (PDict nc)) (filter ?fresh new_cards)"
    by simp
  moreover have "set (map (card_key L) cs)
      \<inter> set (map (\<lambda>nc. card_key L (PDict nc)) (filter ?fresh new_cards)) = {}"
    by (auto, metis image_eqI)
  ultimately have "distinct (map (card_key L) cs')"
    using assms(3,5) by simp
  with c show ?thesis by blast
qed

lemmas store_defs = upsert_cards_def load_db_def save_db_def ensure_file_def default_schema_def
  card_key_def dict_get_def merge_at_def non_null_items_def dict_update_def Let_def
  ascii_lib_def ascii_lower_def

lemma example_store:
  "cards_of example_fs = Some [PDict example_card]"
  "list_all (has_key ascii_lib) [PDict example_card]"
  by (simp_all add: cards_of_def example_fs_def example_card_def has_key_def store_defs)

section \<open>The store's claims\<close>

text \<open>
  C9. When the document is missing or cannot be parsed, \<open>load_db\<close> returns the empty
  schema with no lessons and no cards. When it is missing, the call also writes that
  schema as the document. After every call the parent directory exists, and a document
  that existed is left as it was.
\<close>

theorem load_db_default:
  "(doc fs = None \<or> doc fs = Some Corrupt \<longrightarrow>
      snd (load_db fs) = PDict [(''lessons'', PList []), (''cards'', PList [])])
 \<and> (doc fs = None \<longrightarrow>
      doc (fst (load_db fs)) = Some (Json (PDict [(''lessons'', PList []), (''cards'', PList [])])))
 \<and> parent_exists (fst (load_db fs))
 \<and> (doc fs = Some d \<longrightarrow> doc (fst (load_db fs)) = Some d)"
  by (auto simp: load_db_def ensure_file_def default_schema_def Let_def)

theorem load_db_default_witness:
  "snd (load_db \<lparr>parent_exists = False, doc = None\<rparr>)
     = PDict [(''lessons'', PList []), (''cards'', PList [])]
 \<and> doc (fst (load_db \<lparr>parent_exists = False, doc = None\<rparr>))
     = Some (Json (PDict [(''lessons'', PList []), (''cards'', PList [])]))
 \<and> parent_exists (fst (load_db \<lparr>parent_exists = False, doc = None\<rparr>))
 \<and> snd (load_db \<lparr>parent_exists = True, doc = Some Corrupt\<rparr>)
     = PDict [(''lessons'', PList []), (''cards'', PList [])]
 \<and> doc (fst (load_db \<lparr>parent_exists = True, doc = Some Corrupt\<rparr>)) = Some Corrupt"
  using load_db_default[of "\<lparr>parent_exists = False, doc = None\<rparr>"]
    load_db_default[of "\<lparr>parent_exists = True, doc = Some Corrupt\<rparr>" Corrupt]
  by simp

text \<open>
  C1 and what the code does: one call of \<open>upsert_cards\<close> on an empty store, with two
  items whose identity key is the same, appends both. The index \<open>existing\<close> is built
  before the loop and an appended card never enters it, so the second item is not
  recognised. The store then holds two cards with one identity key.
\<close>

theorem upsert_duplicate_in_one_call:
  "upsert_cards ascii_lib
     [[(''term'', PStr ''Haus''), (''translation'', PStr ''house''), (''lang'', PStr ''German'')],
      [(''term'', PStr ''haus''), (''translation'', PStr ''home''), (''lang'', PStr ''German'')]]
     \<lparr>parent_exists = False, doc = None\<rparr>
   = (\<lparr>parent_exists = True,
       doc = Some (Json (PDict [(''lessons'', PList []),
         (''cards'', PList
            [PDict [(''term'', PStr ''Haus''), (''translation'', PStr ''house''), (''lang'', PStr ''German'')],
             PDict [(''term'', PStr ''haus''), (''translation'', PStr ''home''), (''lang'', PStr ''German'')]])]))\<rparr>,
      Inr 2)
 \<and> card_key ascii_lib
       (PDict [(''term'', PStr ''Haus''), (''translation'', PStr ''house''), (''lang'', PStr ''German'')])
     = Inr (''haus'', PStr ''German'')
 \<and> card_key ascii_lib
       (PDict [(''term'', PStr ''haus''), (''translation'', PStr ''home''), (''lang'', PStr ''German'')])
     = Inr (''haus'', PStr ''German'')"
  by (simp add: store_defs)

text \<open>
  C7. On a store whose cards have identity keys, and for items that each have one (a
  string term), \<open>upsert_cards\<close> returns the number of items in the call: an item that
  matches a stored card and an item that repeats an earlier one both count.
\<close>

theorem upsert_counts_items:
  assumes "cards_of fs = Some cs"
      and "list_all (has_key L) cs"
      and "list_all (\<lambda>new_card. has_key L (PDict new_card)) new_cards"
  shows "snd (upsert_cards L new_cards fs) = Inr (int (length new_cards))"
  using upsert_cards_result[OF assms] by blast

theorem upsert_counts_items_witness:
  "snd (upsert_cards ascii_lib
          [[(''term'', PStr ''HAUS''), (''lang'', PStr ''German'')],
           [(''term'', PStr ''haus''), (''lang'', PStr ''German'')],
           [(''term'', PStr ''Baum'')],
           [(''term'', PStr ''Baum'')]]
          example_fs) = Inr 4"
proof -
  have "list_all (\<lambda>new_card. has_key ascii_lib (PDict new_card))
          [[(''term'', PStr ''HAUS''), (''lang'', PStr ''German'')],
           [(''term'', PStr ''haus''), (''lang'', PStr ''German'')],
           [(''term'', PStr ''Baum'')],
           [(''term'', PStr ''Baum'')]]"
    by (simp add: has_key_iff dict_get_def)
  from upsert_counts_items[OF example_store(1,2) this] show ?thesis by simp
qed

text \<open>
  C8. When an item of the call has no \<open>"term"\<close>, \<open>upsert_cards\<close> raises. \<open>save_db\<close> is
  not reached: the file system is as \<open>load_db\<close> alone leaves it, the next \<open>load_db\<close>
  returns what it would have returned without the call, and a document that existed is
  unchanged.
\<close>

theorem upsert_missing_term_raises:
  assumes "\<exists>new_card \<in> set new_cards. map_of new_card ''term'' = None"
  shows "(\<exists>e. snd (upsert_cards L new_cards fs) = Inl e)
       \<and> fst (upsert_cards L new_cards fs) = fst (load_db fs)
       \<and> load_db (fst (upsert_cards L new_cards fs)) = load_db fs
       \<and> (doc fs \<noteq> None \<and> parent_exists fs \<longrightarrow> fst (upsert_cards L new_cards fs) = fs)"
proof -
  from upsert_cards_loop_error[of L new_cards fs] upsert_loop_missing_term[OF assms]
  obtain e where e: "snd (upsert_cards L new_cards fs) = Inl e" by blast
  note f = upsert_cards_error_fs[OF e]
  have "doc fs \<noteq> None \<and> parent_exists fs \<longrightarrow> fst (load_db fs) = fs"
    by (simp add: load_db_def Let_def ensure_file_existing)
  with e f show ?thesis by (auto simp: load_db_after_load)
qed

theorem upsert_missing_term_raises_witness:
  "(\<exists>e. snd (upsert_cards ascii_lib
               [[(''term'', PStr ''Baum'')], [(''translation'', PStr ''house'')]] example_fs) = Inl e)
 \<and> fst (upsert_cards ascii_lib
          [[(''term'', PStr ''Baum'')], [(''translation'', PStr ''house'')]] example_fs) = example_fs"
proof -
  have "\<exists>new_card \<in> set [[(''term'', PStr ''Baum'')], [(''translation'', PStr ''house'')]].
          map_of new_card ''term'' = None"
    by simp
  moreover have "doc example_fs \<noteq> None \<and> parent_exists example_fs"
    by (simp add: example_fs_def)
  ultimately show ?thesis
    using upsert_missing_term_raises[of _ ascii_lib example_fs] by blast
qed

text \<open>
  C6. After \<open>upsert_cards\<close>, the card at a position \<open>i\<close> the store had keeps every
  field for which no item with the card's identity key brings a value other than null;
  this holds for \<open>ease\<close>, \<open>step\<close> and \<open>due\<close> as for any field. When no later card of
  the store has the same key and exactly one item has it, each field of the card is the
  item's value where that is present and not null, and the card's prior value otherwise.
\<close>

theorem upsert_merge_keeps_fields:
  assumes "cards_of fs = Some cs"
      and "list_all (has_key L) cs"
      and "list_all (\<lambda>new_card. has_key L (PDict new_card) \<and> distinct (map fst new_card)) new_cards"
      and "i < length cs"
  shows "\<exists>cs' d d'.
           cards_of (fst (upsert_cards L new_cards fs)) = Some cs'
         \<and> i < length cs' \<and> cs ! i = PDict d \<and> cs' ! i = PDict d'
         \<and> (\<forall>f. list_all (\<lambda>new_card. card_key L (PDict new_card) = card_key L (cs ! i) \<longrightarrow>
                              map_of new_card f = None \<or> map_of new_card f = Some PNone) new_cards
                \<longrightarrow> map_of d' f = map_of d f)
         \<and> (\<forall>new_card f.
                (\<forall>j. i < j \<and> j < length cs \<longrightarrow> card_key L (cs ! j) \<noteq> card_key L (cs ! i))
                \<and> filter (\<lambda>new_card. card_key L (PDict new_card) = card_key L (cs ! i)) new_cards
                  = [new_card]
                \<longrightarrow> map_of d' f
                      = (case map_of new_card f of
                           None \<Rightarrow> map_of d f
                         | Some v \<Rightarrow> if v = PNone then map_of d f else Some v))"
proof -
  let ?merge = "\<lambda>nc acc. dict_update acc (non_null_items nc)"
  let ?same = "\<lambda>nc. card_key L (PDict nc) = card_key L (cs ! i)"
  from assms(3) have keys: "list_all (\<lambda>nc. has_key L (PDict nc)) new_cards"
    and dist: "list_all (\<lambda>nc. distinct (map fst nc)) new_cards"
    by (auto simp: list_all_iff)
  from upsert_cards_result[OF assms(1,2) keys] obtain existing cs' where
    ex: "build_index L 0 cs Map.empty = Inr existing"
    and c: "cards_of (fst (upsert_cards L new_cards fs)) = Some cs'"
    and len: "length cs \<le> length cs'"
    and f: "\<forall>i d. i < length cs \<and> cs ! i = PDict d \<longrightarrow>
               cs' ! i = PDict (fold ?merge (filter (sent_to L existing i) new_cards) d)"
    by blast
  from assms(2,4) obtain d where d: "cs ! i = PDict d"
    by (auto simp: list_all_length dest: has_key_dict)
  let ?d' = "fold ?merge (filter (sent_to L existing i) new_cards) d"
  from f d assms(4) have d': "cs' ! i = PDict ?d'" by simp
  have sub: "list_all (\<lambda>nc. sent_to L existing i nc \<longrightarrow> ?same nc) new_cards"
    using sent_to_same_key[OF ex] by (simp add: list_all_iff)
  have frame: "map_of ?d' f = map_of d f"
    if "list_all (\<lambda>nc. ?same nc \<longrightarrow> map_of nc f = None \<or> map_of nc f = Some PNone) new_cards" for f
    using dist that sub by (rule map_of_merge_fold_sub)
  have single: "map_of ?d' f = (case map_of nc f of None \<Rightarrow> map_of d f
                                | Some v \<Rightarrow> if v = PNone then map_of d f else Some v)"
    if last: "\<forall>j. i < j \<and> j < length cs \<longrightarrow> card_key L (cs ! j) \<noteq> card_key L (cs ! i)"
      and one: "filter ?same new_cards = [nc]" for nc f
  proof -
    have "filter (sent_to L existing i) new_cards = filter ?same new_cards"
    proof (rule filter_cong[OF refl])
      fix x assume "x \<in> set new_cards"
      with keys have "has_key L (PDict x)" by (simp add: list_all_iff)
      with sent_to_same_key[OF ex, of i x] same_key_sent_to[OF ex assms(4) last, of x]
      show "sent_to L existing i x = ?same x" by blast
    qed
    with one have eq: "filter (sent_to L existing i) new_cards = [nc]" by simp
    from one have "nc \<in> set (filter ?same new_cards)" by simp
    then have "distinct (map fst nc)" using dist by (simp add: list_all_iff)
    then show ?thesis unfolding eq by (simp add: map_of_merge)
  qed
  from c len assms(4) d d' frame single show ?thesis
    by (intro exI[of _ cs'] exI[of _ d] exI[of _ ?d']) auto
qed

theorem upsert_merge_keeps_fields_witness:
  "\<exists>cs' d'.
     cards_of (fst (upsert_cards ascii_lib
        [[(''term'', PStr ''HAUS''), (''pos'', PNone), (''translation'', PStr ''home''),
          (''lang'', PStr ''German''), (''due'', PNone)]] example_fs)) = Some cs'
   \<and> cs' ! 0 = PDict d'
   \<and> map_of d' ''term'' = Some (PStr ''HAUS'')
   \<and> map_of d' ''translation'' = Some (PStr ''home'')
   \<and> map_of d' ''pos'' = None
   \<and> map_of d' ''ease'' = Some (PFloat 2.5)
   \<and> map_of d' ''step'' = Some (PInt 1)
   \<and> map_of d' ''due'' = Some (PStr ''2024-01-16T00:00:00'')"
proof -
  let ?nc = "[(''term'', PStr ''HAUS''), (''pos'', PNone), (''translation'', PStr ''home''),
          (''lang'', PStr ''German''), (''due'', PNone)]"
  have items: "list_all (\<lambda>new_card. has_key ascii_lib (PDict new_card) \<and> distinct (map fst new_card)) [?nc]"
    by (simp add: has_key_iff dict_get_def)
  have i: "0 < length [PDict example_card]" by simp
  from upsert_merge_keeps_fields[OF example_store(1,2) items i] obtain cs' d d' where
    c: "cards_of (fst (upsert_cards ascii_lib [?nc] example_fs)) = Some cs'"
    and d: "[PDict example_card] ! 0 = PDict d" and d': "cs' ! 0 = PDict d'"
    and frame: "\<And>f. list_all (\<lambda>new_card. card_key ascii_lib (PDict new_card)
                                  = card_key ascii_lib ([PDict example_card] ! 0) \<longrightarrow>
                              map_of new_card f = None \<or> map_of new_card f = Some PNone) [?nc]
                \<Longrightarrow> map_of d' f = map_of d f"
    and single: "\<And>new_card f.
                (\<forall>j. 0 < j \<and> j < length [PDict example_card] \<longrightarrow>
                   card_key ascii_lib ([PDict example_card] ! j)
                     \<noteq> card_key ascii_lib ([PDict example_card] ! 0))
                \<and> filter (\<lambda>new_card. card_key ascii_lib (PDict new_card)
                                  = card_key ascii_lib ([PDict example_card] ! 0)) [?nc]
                  = [new_card]
                \<Longrightarrow> map_of d' f
                      = (case map_of new_card f of
                           None \<Rightarrow> map_of d f
                         | Some v \<Rightarrow> if v = PNone then map_of d f else Some v)"
    by blast
  from d have de: "d = example_card" by simp
  have same: "(\<forall>j. 0 < j \<and> j < length [PDict example_card] \<longrightarrow>
                   card_key ascii_lib ([PDict example_card] ! j)
                     \<noteq> card_key ascii_lib ([PDict example_card] ! 0))
              \<and> filter (\<lambda>new_card. card_key ascii_lib (PDict new_card)
                                  = card_key ascii_lib ([PDict example_card] ! 0)) [?nc] = [?nc]"
    by (auto simp: example_card_def store_defs)
  have "map_of d' ''ease'' = map_of d ''ease''" by (rule frame) simp
  moreover have "map_of d' ''step'' = map_of d ''step''" by (rule frame) simp
  moreover have "map_of d' ''due'' = map_of d ''due''" by (rule frame) simp
  moreover note single[OF same, of "''term''"] single[OF same, of "''translation''"]
    single[OF same, of "''pos''"]
  ultimately show ?thesis using c d' unfolding de
    by (intro exI[of _ cs'] exI[of _ d']) (simp add: example_card_def)
qed

end
